theory Spec2Isabelle
  imports Main
begin

section \<open>JavaScript values and objects\<close>

text \<open>
  The generator works on plain JavaScript objects (directory configurations, page
  configurations, front matter).  A property value is observed by the generator in four
  ways only: its truthiness, its use as a string, the test \<^verbatim>\<open>instanceof Date\<close>, and
  copying.  \<open>Str\<close> is a string (code units below 256), \<open>DateV iso\<close> a Date object whose
  \<^verbatim>\<open>toISOString()\<close> is \<open>iso\<close>, \<open>Other b\<close> any other value (number, boolean, null,
  array, object) with truthiness \<open>b\<close>.  An object is the list of its properties; a
  key is looked up from the front.
\<close>

datatype jsval = Undefined | Str string | DateV string | Other bool

type_synonym obj = "(string \<times> jsval) list"

text \<open>Reading a property: a missing key reads as \<^verbatim>\<open>undefined\<close>.\<close>

definition getp :: "obj \<Rightarrow> string \<Rightarrow> jsval" where
  "getp ob k = (case map_of ob k of None \<Rightarrow> Undefined | Some v \<Rightarrow> v)"

fun truthy :: "jsval \<Rightarrow> bool" where
  "truthy Undefined = False"
| "truthy (Str s) = (s \<noteq> [])"
| "truthy (DateV d) = True"
| "truthy (Other b) = b"

text \<open>The assignment \<^verbatim>\<open>ob[k] = v\<close>.\<close>

fun setp :: "string \<Rightarrow> jsval \<Rightarrow> obj \<Rightarrow> obj" where
  "setp k v [] = [(k, v)]"
| "setp k v ((k', v') # ob) = (if k' = k then (k', v) # ob else (k', v') # setp k v ob)"

text \<open>
  \<^verbatim>\<open>Object.assign(target, source)\<close>: for every own key of the source, in the source's
  order, \<^verbatim>\<open>target[key] = source[key]\<close>.
\<close>

definition assign :: "obj \<Rightarrow> obj \<Rightarrow> obj" where
  "assign target source = foldl (\<lambda>ob k. setp k (getp source k) ob) target (map fst source)"

datatype error = UnsupportedExtension string | TypeError

section \<open>Regular expressions\<close>

text \<open>
  A backtracking matcher for the fragment of JavaScript regular expressions the source
  uses: character classes, greedy \<^verbatim>\<open>*\<close> and \<^verbatim>\<open>+\<close> on a class, greedy \<^verbatim>\<open>?\<close> on a
  sequence, capture groups (\<open>Open n\<close> ... \<open>Close n\<close>), \<^verbatim>\<open>^\<close> and \<^verbatim>\<open>$\<close> (no multiline
  flag).  A pattern is the list of its items in sequence.
\<close>

datatype ritem =
    Cls "char \<Rightarrow> bool"
  | Star "char \<Rightarrow> bool"
  | Plus "char \<Rightarrow> bool"
  | Opt "ritem list"
  | Open nat
  | Close nat
  | Bol
  | Eol

record mstate =
  opens :: "nat \<Rightarrow> string"
  caps :: "nat \<Rightarrow> jsval"

definition mstate0 :: mstate where
  "mstate0 = \<lparr>opens = (\<lambda>_. []), caps = (\<lambda>_. Undefined)\<rparr>"

fun rsize :: "ritem \<Rightarrow> nat" where
  "rsize (Opt xs) = Suc (sum_list (map rsize xs))"
| "rsize (Plus p) = 2"
| "rsize _ = 1"

text \<open>
  \<open>rmatch re b s st\<close> matches \<open>re\<close> at the head of \<open>s\<close>; \<open>b\<close> tells whether \<open>s\<close> is the
  whole input (for \<^verbatim>\<open>^\<close>).  The result is the unconsumed rest and the captures of the
  first success in backtracking order.
\<close>

function rmatch :: "ritem list \<Rightarrow> bool \<Rightarrow> string \<Rightarrow> mstate \<Rightarrow> (string \<times> mstate) option" where
  "rmatch [] b s st = Some (s, st)"
| "rmatch (Cls p # r) b s st =
     (case s of [] \<Rightarrow> None
      | c # cs \<Rightarrow> if p c then rmatch r False cs st else None)"
| "rmatch (Star p # r) b s st =
     (case s of [] \<Rightarrow> rmatch r b s st
      | c # cs \<Rightarrow>
          if p c then
            (case rmatch (Star p # r) False cs st of
               Some x \<Rightarrow> Some x
             | None \<Rightarrow> rmatch r b s st)
          else rmatch r b s st)"
| "rmatch (Plus p # r) b s st =
     (case s of [] \<Rightarrow> None
      | c # cs \<Rightarrow> if p c then rmatch (Star p # r) False cs st else None)"
| "rmatch (Opt xs # r) b s st =
     (case rmatch (xs @ r) b s st of
        Some x \<Rightarrow> Some x
      | None \<Rightarrow> rmatch r b s st)"
| "rmatch (Open n # r) b s st = rmatch r b s (st\<lparr>opens := (opens st)(n := s)\<rparr>)"
| "rmatch (Close n # r) b s st =
     rmatch r b s
       (st\<lparr>caps := (caps st)(n := Str (take (length (opens st n) - length s) (opens st n)))\<rparr>)"
| "rmatch (Bol # r) b s st = (if b then rmatch r b s st else None)"
| "rmatch (Eol # r) b s st = (if s = [] then rmatch r b s st else None)"
  by pat_completeness auto
termination
  by (relation "measures [\<lambda>(re, b, s, st). sum_list (map rsize re), \<lambda>(re, b, s, st). length s]")
     auto

text \<open>
  The first match in the input, scanning start positions from the left: the text before
  the match, the matched text, the text after it and the captures.
\<close>

fun rsearch :: "ritem list \<Rightarrow> bool \<Rightarrow> string \<Rightarrow> string
    \<Rightarrow> (string \<times> string \<times> string \<times> (nat \<Rightarrow> jsval)) option" where
  "rsearch re b pre s =
     (case rmatch re b s mstate0 of
        Some (rest, st) \<Rightarrow> Some (pre, take (length s - length rest) s, rest, caps st)
      | None \<Rightarrow>
          (case s of [] \<Rightarrow> None
           | c # cs \<Rightarrow> rsearch re False (pre @ [c]) cs))"

text \<open>\<^verbatim>\<open>str.match(re)\<close> for a non-global pattern: the captures, or null.\<close>

definition js_match :: "ritem list \<Rightarrow> string \<Rightarrow> (nat \<Rightarrow> jsval) option" where
  "js_match re s = (case rsearch re True [] s of None \<Rightarrow> None
                    | Some (pre, m, rest, g) \<Rightarrow> Some g)"

text \<open>\<^verbatim>\<open>str.replace(re, fn)\<close> for a non-global pattern: the first match is replaced.\<close>

definition replace_fn :: "ritem list \<Rightarrow> (string \<Rightarrow> (nat \<Rightarrow> jsval) \<Rightarrow> error + string)
    \<Rightarrow> string \<Rightarrow> error + string" where
  "replace_fn re f s =
     (case rsearch re True [] s of
        None \<Rightarrow> Inr s
      | Some (pre, m, rest, g) \<Rightarrow>
          (case f m g of Inl e \<Rightarrow> Inl e | Inr t \<Rightarrow> Inr (pre @ t @ rest)))"

text \<open>Character classes of the source's patterns.\<close>

definition is_digit :: "char \<Rightarrow> bool" where
  "is_digit c = (c \<in> set ''0123456789'')"

definition is_word :: "char \<Rightarrow> bool" where
  "is_word c = (c \<in> set ''abcdefghijklmnopqrstuvwxyzABCDEFGHIJKLMNOPQRSTUVWXYZ0123456789_'')"

text \<open>\<^verbatim>\<open>.\<close> matches everything but a line terminator.\<close>

definition is_dot :: "char \<Rightarrow> bool" where
  "is_dot c = (c \<noteq> CHR 0x0A \<and> c \<noteq> CHR 0x0D)"


definition is_sep :: "char \<Rightarrow> bool" where
  "is_sep c = (c \<in> set ''_|-'')"

definition is_target :: "char \<Rightarrow> bool" where
  "is_target c = (c \<notin> set [CHR 0x22, CHR ''/'', CHR '':''])"

definition is_attr :: "char \<Rightarrow> bool" where
  "is_attr c = (c \<in> set ''src|href'')"

definition lit :: "char \<Rightarrow> ritem" where
  "lit c = Cls (\<lambda>x. x = c)"

text \<open>\<^verbatim>\<open>(\d{4}-\d{2}-\d{2})\<close>\<close>

definition re_date_group :: "ritem list" where
  "re_date_group =
     [Open 1, Cls is_digit, Cls is_digit, Cls is_digit, Cls is_digit, lit CHR ''-'',
      Cls is_digit, Cls is_digit, lit CHR ''-'', Cls is_digit, Cls is_digit, Close 1]"

text \<open>\<^verbatim>\<open>/(\d{4}-\d{2}-\d{2})?[_|-]?(.*)/\<close> (generate)\<close>

definition re_dirname :: "ritem list" where
  "re_dirname = [Opt re_date_group, Opt [Cls is_sep], Open 2, Star is_dot, Close 2]"

text \<open>\<^verbatim>\<open>/(\d{4}-\d{2}-\d{2})?[_|-]?(.*)\.?/\<close> (renderContentFile)\<close>

definition re_filename :: "ritem list" where
  "re_filename =
     [Opt re_date_group, Opt [Cls is_sep], Open 2, Star is_dot, Close 2, Opt [lit CHR ''.'']]"

text \<open>\<^verbatim>\<open>/\.[\w]+$/\<close>\<close>

definition re_extension :: "ritem list" where
  "re_extension = [lit CHR ''.'', Plus is_word, Eol]"

text \<open>\<^verbatim>\<open>/^\//\<close>\<close>

definition re_leading_slash :: "ritem list" where
  "re_leading_slash = [Bol, lit CHR ''/'']"

text \<open>\<^verbatim>\<open>/!\[.+\]\(([^"\/\:]+)\)/\<close>\<close>

definition re_md_image :: "ritem list" where
  "re_md_image =
     [lit CHR ''!'', lit CHR ''['', Plus is_dot, lit CHR '']'', lit CHR ''('',
      Open 1, Plus is_target, Close 1, lit CHR '')'']"

text \<open>\<^verbatim>\<open>/[src|href]=\"([^"\/\:]+)\"/g\<close>: the bracket is a character class.\<close>

definition re_html_attr :: "ritem list" where
  "re_html_attr =
     [Cls is_attr, lit CHR ''='', lit CHR 0x22, Open 1, Plus is_target, Close 1, lit CHR 0x22]"

section \<open>String functions\<close>

text \<open>
  The replacement text of \<^verbatim>\<open>str.replace(pattern, replacement)\<close> with a string
  replacement: \<^verbatim>\<open>$$\<close>, \<^verbatim>\<open>$&\<close>, \<^verbatim>\<open>$`\<close> and \<^verbatim>\<open>$'\<close> are expanded (there are no
  captures to refer to where the source passes a replacement string that is not empty).
\<close>

fun expand_repl :: "string \<Rightarrow> string \<Rightarrow> string \<Rightarrow> string \<Rightarrow> string" where
  "expand_repl [] m bef aft = []"
| "expand_repl [c] m bef aft = [c]"
| "expand_repl (c # d # r) m bef aft =
     (if c = CHR ''$'' \<and> d = CHR ''$'' then CHR ''$'' # expand_repl r m bef aft
      else if c = CHR ''$'' \<and> d = CHR ''&'' then m @ expand_repl r m bef aft
      else if c = CHR ''$'' \<and> d = CHR 0x60 then bef @ expand_repl r m bef aft
      else if c = CHR ''$'' \<and> d = CHR 0x27 then aft @ expand_repl r m bef aft
      else c # expand_repl (d # r) m bef aft)"

text \<open>\<^verbatim>\<open>str.replace(re, replacement)\<close>, non-global pattern.\<close>

definition replace_re :: "ritem list \<Rightarrow> string \<Rightarrow> string \<Rightarrow> string" where
  "replace_re re repl s =
     (case rsearch re True [] s of
        None \<Rightarrow> s
      | Some (pre, m, rest, g) \<Rightarrow> pre @ expand_repl repl m pre rest @ rest)"

text \<open>The first occurrence of a string: the text before it and the text after it.\<close>

fun find_str :: "string \<Rightarrow> string \<Rightarrow> string \<Rightarrow> (string \<times> string) option" where
  "find_str needle pre s =
     (if take (length needle) s = needle then Some (pre, drop (length needle) s)
      else (case s of [] \<Rightarrow> None | c # cs \<Rightarrow> find_str needle (pre @ [c]) cs))"

text \<open>\<^verbatim>\<open>str.replace(needle, replacement)\<close> with a string pattern: the first occurrence only.\<close>

definition replace_str :: "string \<Rightarrow> string \<Rightarrow> string \<Rightarrow> string" where
  "replace_str needle repl s =
     (case find_str needle [] s of
        None \<Rightarrow> s
      | Some (pre, rest) \<Rightarrow> pre @ expand_repl repl needle pre rest @ rest)"

text \<open>\<^verbatim>\<open>str.indexOf(needle, from)\<close>, \<open>None\<close> for -1.\<close>

definition index_of :: "string \<Rightarrow> nat \<Rightarrow> string \<Rightarrow> nat option" where
  "index_of needle from s =
     (case find_str needle [] (drop from s) of
        None \<Rightarrow> None
      | Some (pre, rest) \<Rightarrow> Some (min from (length s) + length pre))"

definition starts_with :: "string \<Rightarrow> string \<Rightarrow> bool" where
  "starts_with s p = (take (length p) s = p)"

section \<open>Paths (Node's posix path module)\<close>

fun split_on :: "char \<Rightarrow> string \<Rightarrow> string list" where
  "split_on d [] = [[]]"
| "split_on d (c # cs) =
     (if c = d then [] # split_on d cs
      else (case split_on d cs of [] \<Rightarrow> [[c]] | x # xs \<Rightarrow> (c # x) # xs))"

fun join_with :: "string \<Rightarrow> string list \<Rightarrow> string" where
  "join_with d [] = []"
| "join_with d [x] = x"
| "join_with d (x # y # ys) = x @ d @ join_with d (y # ys)"

text \<open>
  \<^verbatim>\<open>normalizeString\<close>: empty segments and \<^verbatim>\<open>.\<close> are dropped, \<^verbatim>\<open>..\<close> removes the segment
  before it, or is kept when there is none and the path is relative.
\<close>

fun normalize_segments :: "bool \<Rightarrow> string list \<Rightarrow> string list \<Rightarrow> string list" where
  "normalize_segments allow st [] = rev st"
| "normalize_segments allow st (x # xs) =
     (if x = [] \<or> x = ''.'' then normalize_segments allow st xs
      else if x = ''..'' then
        (case st of
           t # ts \<Rightarrow>
             if t \<noteq> ''..'' then normalize_segments allow ts xs
             else if allow then normalize_segments allow (''..'' # st) xs
             else normalize_segments allow st xs
         | [] \<Rightarrow>
             if allow then normalize_segments allow [''..''] xs
             else normalize_segments allow [] xs)
      else normalize_segments allow (x # st) xs)"

definition path_normalize :: "string \<Rightarrow> string" where
  "path_normalize p =
     (if p = [] then ''.''
      else
        let isAbsolute = (hd p = CHR ''/'');
            trailingSeparator = (last p = CHR ''/'');
            q = join_with ''/'' (normalize_segments (\<not> isAbsolute) [] (split_on CHR ''/'' p))
        in if q = [] then (if isAbsolute then ''/'' else if trailingSeparator then ''./'' else ''.'')
           else
             let q' = (if trailingSeparator then q @ ''/'' else q)
             in if isAbsolute then CHR ''/'' # q' else q')"

definition path_join :: "string list \<Rightarrow> string" where
  "path_join args =
     (let xs = filter (\<lambda>a. a \<noteq> []) args
      in if xs = [] then ''.'' else path_normalize (join_with ''/'' xs))"

text \<open>\<^verbatim>\<open>path.join\<close> throws a TypeError on an argument that is not a string.\<close>

fun strings_of :: "jsval list \<Rightarrow> string list option" where
  "strings_of [] = Some []"
| "strings_of (Str s # vs) = (case strings_of vs of None \<Rightarrow> None | Some xs \<Rightarrow> Some (s # xs))"
| "strings_of (v # vs) = None"

definition path_join_v :: "jsval list \<Rightarrow> error + string" where
  "path_join_v args = (case strings_of args of None \<Rightarrow> Inl TypeError | Some xs \<Rightarrow> Inr (path_join xs))"

text \<open>The last component of a path, trailing slashes ignored.\<close>

definition path_basename :: "string \<Rightarrow> string" where
  "path_basename p = rev (takeWhile (\<lambda>c. c \<noteq> CHR ''/'') (dropWhile (\<lambda>c. c = CHR ''/'') (rev p)))"

text \<open>
  \<^verbatim>\<open>path.extname\<close>: from the last dot of the last component, empty when there is no
  dot, when the dot is the component's first character, or when the component is \<^verbatim>\<open>..\<close>.
\<close>

definition path_extname :: "string \<Rightarrow> string" where
  "path_extname p =
     (let b = path_basename p;
          e = takeWhile (\<lambda>c. c \<noteq> CHR ''.'') (rev b)
      in if CHR ''.'' \<notin> set b \<or> length e + 1 = length b \<or> b = ''..'' then []
         else CHR ''.'' # rev e)"


section \<open>The file system, the collaborators and the generator's state\<close>

text \<open>
  A source tree.  A file carries what \<^verbatim>\<open>gray-matter\<close> parses from it: the front matter
  and the body.  A directory carries what \<^verbatim>\<open>loadConfigFile\<close> returns for it (the empty
  object when it has no configuration file) and its entries in the order
  \<^verbatim>\<open>fs.readdirSync\<close> lists them.  Symbolic links are left out.
\<close>

datatype fsnode =
    File string obj string
  | Dir string obj "fsnode list"

fun node_name :: "fsnode \<Rightarrow> string" where
  "node_name (File n fm body) = n"
| "node_name (Dir n cfg es) = n"

fun isDirectory :: "fsnode \<Rightarrow> bool" where
  "isDirectory (File n fm body) = False"
| "isDirectory (Dir n cfg es) = True"

text \<open>
  The collaborators outside the generator: the markdown renderer, the template manager
  (\<open>applyTemplate layout data\<close> is \<^verbatim>\<open>getTemplate(layout)(data)\<close>) and the AMP generator,
  whose promise is rejected with an error (\<open>Some err\<close>) or fulfilled (\<open>None\<close>).
\<close>

record env =
  marked :: "string \<Rightarrow> string"
  applyTemplate :: "jsval \<Rightarrow> obj \<Rightarrow> string"
  ampGenerate :: "obj \<Rightarrow> string option"

text \<open>What a run does to the outside world, in order.\<close>

datatype event =
    EnsureDir string
  | CopyFile string string
  | ReadFile string
  | WriteFile string string
  | ConsoleLog string
  | ConsoleError string
  | AmpGenerate obj
  | TemplateGenerate string string nat "nat list"

text \<open>
  The store of configuration objects (directory and page configurations are passed by
  reference and mutated in place; a reference is an index into the store), the effects so
  far, and the fields of the \<^verbatim>\<open>ContentGenerator\<close> instance.
\<close>

record gstate =
  heap :: "obj list"
  events :: "event list"
  initialized :: bool
  baseSourceDirectory :: string
  baseDestDirectory :: string
  baseTemplateData :: obj
  templateGenerator :: bool
  ampGenerator :: bool

definition renderAmpPages :: bool where
  "renderAmpPages = True"

definition contentPageName :: string where
  "contentPageName = ''index.html''"

definition contentExtensionsToInclude :: "string list" where
  "contentExtensionsToInclude = [''md'']"

definition assetIgnoreExtensions :: "string list" where
  "assetIgnoreExtensions = [''scss'', ''sass'', ''css'', ''md'', ''hbs'']"

text \<open>The next free reference.\<close>

definition nxt :: "gstate \<Rightarrow> nat" where
  "nxt s = length (heap s)"

definition alloc :: "obj \<Rightarrow> gstate \<Rightarrow> nat \<times> gstate" where
  "alloc ob s = (nxt s, s\<lparr>heap := heap s @ [ob]\<rparr>)"

definition upd :: "nat \<Rightarrow> (obj \<Rightarrow> obj) \<Rightarrow> gstate \<Rightarrow> gstate" where
  "upd r f s = s\<lparr>heap := (heap s)[r := f (heap s ! r)]\<rparr>"

definition emit :: "event \<Rightarrow> gstate \<Rightarrow> gstate" where
  "emit e s = s\<lparr>events := events s @ [e]\<rparr>"

text \<open>
  \<^verbatim>\<open>str.replace(re, fn)\<close> for a global pattern: every match, left to right.  \<open>k\<close>
  counts the characters still to skip because the previous match consumed them; after
  an empty match the scan moves on by one character.
\<close>

fun replace_all_fn :: "ritem list \<Rightarrow> (string \<Rightarrow> (nat \<Rightarrow> jsval) \<Rightarrow> error + string)
    \<Rightarrow> bool \<Rightarrow> nat \<Rightarrow> string \<Rightarrow> error + string" where
  "replace_all_fn re f b k [] =
     (if k = 0 then
        (case rmatch re b [] mstate0 of
           None \<Rightarrow> Inr []
         | Some (rest, st) \<Rightarrow> f [] (caps st))
      else Inr [])"
| "replace_all_fn re f b k (c # cs) =
     (if 0 < k then replace_all_fn re f False (k - 1) cs
      else
        (case rmatch re b (c # cs) mstate0 of
           None \<Rightarrow>
             (case replace_all_fn re f False 0 cs of
                Inl e \<Rightarrow> Inl e
              | Inr t \<Rightarrow> Inr (c # t))
         | Some (rest, st) \<Rightarrow>
             let n = length (c # cs) - length rest
             in (case f (take n (c # cs)) (caps st) of
                   Inl e \<Rightarrow> Inl e
                 | Inr u \<Rightarrow>
                     (case replace_all_fn re f False (n - 1) cs of
                        Inl e \<Rightarrow> Inl e
                      | Inr t \<Rightarrow> Inr (if n = 0 then u @ c # t else u @ t)))))"

section \<open>ContentGenerator\<close>

text \<open>\<^verbatim>\<open>buildBaseTemplateData\<close>: the site configuration and the styles object.\<close>

definition buildBaseTemplateData :: "obj \<Rightarrow> obj" where
  "buildBaseTemplateData config = assign (assign [] config) [(''styles'', Other True)]"

definition initialize :: "nat \<Rightarrow> string \<Rightarrow> string \<Rightarrow> gstate \<Rightarrow> gstate" where
  "initialize config sourceDirectory destDirectory s =
     (if \<not> initialized s then
        s\<lparr>baseSourceDirectory := sourceDirectory,
          baseDestDirectory := destDirectory,
          baseTemplateData := buildBaseTemplateData (heap s ! config),
          templateGenerator := True,
          ampGenerator := (if renderAmpPages then True else ampGenerator s),
          initialized := True\<rparr>
      else s)"

subsection \<open>parseContentFile\<close>

text \<open>
  The callback of both rewrites:
  \<^verbatim>\<open>match.replace(filename, path.join("/", pageConfig.path, filename))\<close>.
\<close>

definition prepend_path :: "obj \<Rightarrow> string \<Rightarrow> (nat \<Rightarrow> jsval) \<Rightarrow> error + string" where
  "prepend_path pageConfig m g =
     (case path_join_v [Str ''/'', getp pageConfig ''path'', g 1] of
        Inl e \<Rightarrow> Inl e
      | Inr p \<Rightarrow>
          (case g 1 of
             Str filename \<Rightarrow> Inr (replace_str filename p m)
           | _ \<Rightarrow> Inl TypeError))"

definition rewrite_references :: "obj \<Rightarrow> string \<Rightarrow> error + string" where
  "rewrite_references pageConfig markdownContent =
     (case replace_fn re_md_image (prepend_path pageConfig) markdownContent of
        Inl e \<Rightarrow> Inl e
      | Inr c \<Rightarrow> replace_all_fn re_html_attr (prepend_path pageConfig) True 0 c)"

text \<open>A Date object in \<^verbatim>\<open>date\<close> becomes the first ten characters of its ISO form.\<close>

definition normalize_date :: "obj \<Rightarrow> obj" where
  "normalize_date pageConfig =
     (case getp pageConfig ''date'' of
        DateV isoDate \<Rightarrow> setp ''date'' (Str (take 10 isoDate)) pageConfig
      | _ \<Rightarrow> pageConfig)"

text \<open>The excerpt: the text of the first \<^verbatim>\<open><p>\<close> element, unless one is declared.\<close>

definition extract_excerpt :: "string \<Rightarrow> obj \<Rightarrow> obj" where
  "extract_excerpt html pageConfig =
     (if \<not> truthy (getp pageConfig ''excerpt'') then
        (case index_of ''<p>'' 0 html of
           None \<Rightarrow> pageConfig
         | Some i \<Rightarrow>
             (case index_of ''</p>'' i html of
                None \<Rightarrow> pageConfig
              | Some j \<Rightarrow>
                  setp ''excerpt'' (Str (take (j - (i + 3)) (drop (i + 3) html))) pageConfig))
      else pageConfig)"

text \<open>
  \<open>parseContentFile\<close> reads the file named by \<^verbatim>\<open>pageConfig.source\<close>; \<open>frontMatter\<close> and
  \<open>content\<close> are what \<^verbatim>\<open>gray-matter\<close> gives for it.  The result is the rendered HTML.
\<close>

definition parseContentFile :: "env \<Rightarrow> nat \<Rightarrow> obj \<Rightarrow> string \<Rightarrow> gstate \<Rightarrow> error + (string \<times> gstate)" where
  "parseContentFile ev pageConfig frontMatter content s =
     (case getp (heap s ! pageConfig) ''source'' of
        Str source \<Rightarrow>
          (let s1 = emit (ReadFile source) s
           in case rewrite_references (heap s1 ! pageConfig) content of
                Inl e \<Rightarrow> Inl e
              | Inr markdownContent \<Rightarrow>
                  (let s2 = upd pageConfig (\<lambda>pc. normalize_date (assign pc frontMatter)) s1
                   in case getp (heap s2 ! pageConfig) ''filename'' of
                        Str filename \<Rightarrow>
                          (let fileExtension = drop 1 (path_extname filename)
                           in if fileExtension = ''md'' then
                                (let html = marked ev markdownContent
                                 in Inr (html, upd pageConfig (extract_excerpt html) s2))
                              else Inl (UnsupportedExtension fileExtension))
                      | _ \<Rightarrow> Inl TypeError))
      | _ \<Rightarrow> Inl TypeError)"

subsection \<open>renderContentFile\<close>

text \<open>Lines 165-168: \<^verbatim>\<open>permalink\<close> is an alias for \<^verbatim>\<open>slug\<close>.\<close>

definition permalink_alias :: "obj \<Rightarrow> obj" where
  "permalink_alias pageConfig =
     (if \<not> truthy (getp pageConfig ''slug'') \<and> truthy (getp pageConfig ''permalink'')
      then setp ''slug'' (getp pageConfig ''permalink'') pageConfig
      else pageConfig)"

text \<open>Lines 170-184: date and slug from the file name.\<close>

definition derive_date_slug :: "obj \<Rightarrow> error + obj" where
  "derive_date_slug pageConfig =
     (if \<not> truthy (getp pageConfig ''date'') \<or> \<not> truthy (getp pageConfig ''slug'') then
        (case getp pageConfig ''filename'' of
           Str filename \<Rightarrow>
             (case js_match re_filename (replace_re re_extension [] filename) of
                None \<Rightarrow> Inr pageConfig
              | Some fileNameMatcher \<Rightarrow>
                  (let pc1 = (if \<not> truthy (getp pageConfig ''date'')
                              then setp ''date'' (fileNameMatcher 1) pageConfig else pageConfig);
                       pc2 = (if \<not> truthy (getp pc1 ''slug'')
                              then setp ''slug'' (fileNameMatcher 2) pc1 else pc1)
                   in Inr pc2))
         | _ \<Rightarrow> Inl TypeError)
      else Inr pageConfig)"

text \<open>Lines 186-189.\<close>

definition default_title :: "obj \<Rightarrow> obj" where
  "default_title pageConfig =
     (if \<not> truthy (getp pageConfig ''title'')
      then setp ''title'' (getp pageConfig ''slug'') pageConfig
      else pageConfig)"

text \<open>Lines 191-193: \<^verbatim>\<open>substr\<close> exists on strings only.\<close>

definition derive_year :: "obj \<Rightarrow> error + obj" where
  "derive_year pageConfig =
     (if truthy (getp pageConfig ''date'') then
        (case getp pageConfig ''date'' of
           Str d \<Rightarrow> Inr (setp ''year'' (Str (take 4 d)) pageConfig)
         | _ \<Rightarrow> Inl TypeError)
      else Inr pageConfig)"

text \<open>Lines 195-206: the output directory, \<^verbatim>\<open>path\<close> and \<^verbatim>\<open>path_amp\<close>.\<close>

definition site_relative :: "string \<Rightarrow> string \<Rightarrow> string" where
  "site_relative baseDest actualDestDirectory =
     replace_re re_leading_slash [] (replace_str baseDest [] actualDestDirectory)"

definition resolve_path :: "string \<Rightarrow> string \<Rightarrow> obj \<Rightarrow> error + obj" where
  "resolve_path baseDest actualDestDirectory pageConfig =
     (case (if getp pageConfig ''filename'' \<noteq> Str ''index.md''
            then path_join_v [Str actualDestDirectory, getp pageConfig ''slug'']
            else Inr actualDestDirectory) of
        Inl e \<Rightarrow> Inl e
      | Inr actualDest \<Rightarrow>
          (let p = site_relative baseDest actualDest;
               pc1 = setp ''path'' (Str p) pageConfig
           in Inr (if renderAmpPages then setp ''path_amp'' (Str (p @ ''amp.html'')) pc1 else pc1)))"

text \<open>Lines 163-206 in sequence.\<close>

definition page_metadata :: "string \<Rightarrow> string \<Rightarrow> obj \<Rightarrow> error + obj" where
  "page_metadata baseDest actualDestDirectory pageConfig =
     (case derive_date_slug (permalink_alias pageConfig) of
        Inl e \<Rightarrow> Inl e
      | Inr pc1 \<Rightarrow>
          (case derive_year (default_title pc1) of
             Inl e \<Rightarrow> Inl e
           | Inr pc2 \<Rightarrow> resolve_path baseDest actualDestDirectory pc2))"

definition renderContentFile :: "env \<Rightarrow> nat \<Rightarrow> string \<Rightarrow> obj \<Rightarrow> string \<Rightarrow> gstate
    \<Rightarrow> error + (obj \<times> gstate)" where
  "renderContentFile ev pageConfig actualDestDirectory frontMatter content s =
     (case page_metadata (baseDestDirectory s) actualDestDirectory (heap s ! pageConfig) of
        Inl e \<Rightarrow> Inl e
      | Inr pc \<Rightarrow>
          (case parseContentFile ev pageConfig frontMatter content (upd pageConfig (\<lambda>_. pc) s) of
             Inl e \<Rightarrow> Inl e
           | Inr (html, s1) \<Rightarrow>
               (let s2 = upd pageConfig (setp ''content_html'' (Str html)) s1;
                    templateData = assign (assign [] (baseTemplateData s2)) (heap s2 ! pageConfig);
                    layout = getp (heap s2 ! pageConfig) ''layout'';
                    templatedOutput =
                      applyTemplate ev (if truthy layout then layout else Str ''default'') templateData
                in case path_join_v [getp (heap s2 ! pageConfig) ''path''] of
                     Inl e \<Rightarrow> Inl e
                   | Inr logged \<Rightarrow>
                       (case path_join_v [Str (baseDestDirectory s2), getp (heap s2 ! pageConfig) ''path''] of
                          Inl e \<Rightarrow> Inl e
                        | Inr destDirectory \<Rightarrow>
                            Inr (templateData,
                                 emit (WriteFile (path_join [destDirectory, contentPageName]) templatedOutput)
                                   (emit (EnsureDir destDirectory)
                                      (emit (ConsoleLog logged) s2)))))))"


subsection \<open>processAssetFiles and processContentFiles\<close>

definition is_asset :: "fsnode \<Rightarrow> bool" where
  "is_asset f =
     (\<not> starts_with (node_name f) ''_'' \<and> \<not> isDirectory f \<and>
      drop 1 (path_extname (node_name f)) \<notin> set assetIgnoreExtensions)"

definition is_content :: "fsnode \<Rightarrow> bool" where
  "is_content f =
     (\<not> starts_with (node_name f) ''_'' \<and> \<not> isDirectory f \<and>
      drop 1 (path_extname (node_name f)) \<in> set contentExtensionsToInclude)"

fun copy_assets :: "string \<Rightarrow> string \<Rightarrow> fsnode list \<Rightarrow> gstate \<Rightarrow> gstate" where
  "copy_assets sourceDirectory actualDestDirectory [] s = s"
| "copy_assets sourceDirectory actualDestDirectory (f # fs) s =
     copy_assets sourceDirectory actualDestDirectory fs
       (emit (CopyFile (path_join [sourceDirectory, node_name f])
                       (path_join [actualDestDirectory, node_name f])) s)"

definition processAssetFiles :: "string \<Rightarrow> fsnode list \<Rightarrow> string \<Rightarrow> gstate \<Rightarrow> gstate" where
  "processAssetFiles sourceDirectory sourceDirectoryFiles actualDestDirectory s =
     copy_assets sourceDirectory actualDestDirectory (filter is_asset sourceDirectoryFiles) s"

text \<open>
  The AMP step of the loop (lines 280-288): a rejected promise is caught and logged.
\<close>

definition amp_step :: "env \<Rightarrow> string \<Rightarrow> obj \<Rightarrow> gstate \<Rightarrow> gstate" where
  "amp_step ev currentFileName templateData s =
     (if renderAmpPages \<and> ampGenerator s then
        (case ampGenerate ev templateData of
           None \<Rightarrow> emit (AmpGenerate templateData) s
         | Some err \<Rightarrow>
             emit (ConsoleError (''Error generating AMP file for '' @ [CHR 0x27] @ currentFileName
                                  @ [CHR 0x27] @ '' - '' @ err))
               (emit (AmpGenerate templateData) s))
      else s)"

text \<open>The loop of \<open>processContentFiles\<close> over the content files; \<open>pages\<close> is the array.\<close>

fun content_loop :: "env \<Rightarrow> string \<Rightarrow> string \<Rightarrow> nat \<Rightarrow> nat list \<Rightarrow> fsnode list \<Rightarrow> gstate
    \<Rightarrow> error + (nat list \<times> gstate)" where
  "content_loop ev sourceDirectory actualDestDirectory currentDirectoryConfig pages [] s =
     Inr (pages, s)"
| "content_loop ev sourceDirectory actualDestDirectory currentDirectoryConfig pages (Dir n cfg es # fs) s =
     content_loop ev sourceDirectory actualDestDirectory currentDirectoryConfig pages fs s"
| "content_loop ev sourceDirectory actualDestDirectory currentDirectoryConfig pages
       (File currentFileName frontMatter content # fs) s =
     (let (currentPageConfig, s1) = alloc (assign [] (heap s ! currentDirectoryConfig)) s;
          s2 = upd currentPageConfig
                 (\<lambda>pc. setp ''source'' (Str (path_join [sourceDirectory, currentFileName]))
                         (setp ''filename'' (Str currentFileName) pc)) s1
      in case renderContentFile ev currentPageConfig actualDestDirectory frontMatter content s2 of
           Inl e \<Rightarrow> Inl e
         | Inr (templateData, s3) \<Rightarrow>
             content_loop ev sourceDirectory actualDestDirectory currentDirectoryConfig
               (pages @ [currentPageConfig]) fs (amp_step ev currentFileName templateData s3))"

definition processContentFiles :: "env \<Rightarrow> string \<Rightarrow> fsnode list \<Rightarrow> string \<Rightarrow> nat \<Rightarrow> gstate
    \<Rightarrow> error + (nat list \<times> gstate)" where
  "processContentFiles ev sourceDirectory sourceDirectoryFiles actualDestDirectory currentDirectoryConfig s =
     content_loop ev sourceDirectory actualDestDirectory currentDirectoryConfig []
       (filter is_content sourceDirectoryFiles) s"

subsection \<open>generate\<close>

text \<open>Lines 75-93: the directory's configuration, a new object.\<close>

definition directory_config :: "obj \<Rightarrow> obj \<Rightarrow> bool \<Rightarrow> string \<Rightarrow> obj" where
  "directory_config baseConfig sourceDirectoryConfig isContentPackageDirectory destDirectory =
     (let currentDirectoryConfig = assign (assign [] baseConfig) sourceDirectoryConfig
      in if isContentPackageDirectory then
           (case js_match re_dirname (path_basename destDirectory) of
              None \<Rightarrow> currentDirectoryConfig
            | Some fileNameMatcher \<Rightarrow>
                setp ''slug'' (fileNameMatcher 2)
                  (setp ''date'' (fileNameMatcher 1) currentDirectoryConfig))
         else currentDirectoryConfig)"

text \<open>Lines 95-108: the destination, overridden by \<^verbatim>\<open>dist_path\<close>.\<close>

definition overridden_dest :: "string \<Rightarrow> string \<Rightarrow> bool \<Rightarrow> obj \<Rightarrow> error + string" where
  "overridden_dest baseDest destDirectory isContentPackageDirectory currentDirectoryConfig =
     (if truthy (getp currentDirectoryConfig ''dist_path'') then
        (case getp currentDirectoryConfig ''dist_path'' of
           Str dist_path \<Rightarrow>
             (let d = path_join [baseDest, replace_re re_leading_slash [] dist_path]
              in if isContentPackageDirectory
                 then path_join_v [Str d, getp currentDirectoryConfig ''slug'']
                 else Inr d)
         | _ \<Rightarrow> Inl TypeError)
      else Inr destDirectory)"

text \<open>
  \<open>generate\<close> on the directory with configuration file \<open>sourceDirectoryConfig\<close> and
  entries \<open>files\<close>; \<open>baseConfig\<close> is a reference into the store.  \<open>traverse\<close> is the
  loop over the subdirectories (lines 134-143), \<open>pages\<close> the array it appends to.
\<close>

function generate :: "env \<Rightarrow> nat \<Rightarrow> string \<Rightarrow> string \<Rightarrow> obj \<Rightarrow> fsnode list \<Rightarrow> gstate
    \<Rightarrow> error + (nat list \<times> gstate)"
  and traverse :: "env \<Rightarrow> nat \<Rightarrow> string \<Rightarrow> string \<Rightarrow> nat list \<Rightarrow> fsnode list \<Rightarrow> gstate
    \<Rightarrow> error + (nat list \<times> gstate)" where
  "generate ev baseConfig sourceDirectory destDirectory sourceDirectoryConfig files s =
     (let s0 = initialize baseConfig sourceDirectory destDirectory s;
          isContentPackageDirectory = (''index.md'' \<in> set (map node_name files));
          (currentDirectoryConfig, s1) =
             alloc (directory_config (heap s0 ! baseConfig) sourceDirectoryConfig
                      isContentPackageDirectory destDirectory) s0
      in case overridden_dest (baseDestDirectory s1) destDirectory isContentPackageDirectory
                (heap s1 ! currentDirectoryConfig) of
           Inl e \<Rightarrow> Inl e
         | Inr overriddenDestDirectory \<Rightarrow>
             (let s2 = emit (EnsureDir overriddenDestDirectory) s1;
                  s3 = processAssetFiles sourceDirectory files overriddenDestDirectory s2
              in case processContentFiles ev sourceDirectory files overriddenDestDirectory
                        currentDirectoryConfig s3 of
                   Inl e \<Rightarrow> Inl e
                 | Inr (pages, s4) \<Rightarrow>
                     (case traverse ev currentDirectoryConfig sourceDirectory destDirectory pages
                             (filter isDirectory files) s4 of
                        Inl e \<Rightarrow> Inl e
                      | Inr (pages', s5) \<Rightarrow>
                          Inr (pages',
                               if templateGenerator s5
                               then emit (TemplateGenerate sourceDirectory destDirectory
                                            currentDirectoryConfig pages') s5
                               else s5))))"
| "traverse ev currentDirectoryConfig sourceDirectory destDirectory pages [] s = Inr (pages, s)"
| "traverse ev currentDirectoryConfig sourceDirectory destDirectory pages (File n fm body # ds) s =
     traverse ev currentDirectoryConfig sourceDirectory destDirectory pages ds s"
| "traverse ev currentDirectoryConfig sourceDirectory destDirectory pages
       (Dir subDirectoryName cfg files # ds) s =
     (case generate ev currentDirectoryConfig
             (path_join [sourceDirectory, subDirectoryName])
             (path_join [destDirectory, subDirectoryName]) cfg files s of
        Inl e \<Rightarrow> Inl e
      | Inr (subContent, s1) \<Rightarrow>
          traverse ev currentDirectoryConfig sourceDirectory destDirectory (pages @ subContent) ds s1)"
  by pat_completeness auto
termination
proof (relation "measure (\<lambda>x. case x of
          Inl (ev, b, sd, dd, cfg, files, s) \<Rightarrow> 2 * size_list size files + 1
        | Inr (ev, c, sd, dd, pages, ds, s) \<Rightarrow> 2 * size_list size ds)")
  have filter_size: "size_list size (filter P xs) \<le> size_list size xs" for P and xs :: "fsnode list"
    by (induction xs) auto
  show "wf (measure (\<lambda>x. case x of
          Inl (ev, b, sd, dd, cfg, files, s) \<Rightarrow> 2 * size_list size files + 1
        | Inr (ev, c, sd, dd, pages, ds, s) \<Rightarrow> 2 * size_list size ds))"
    by simp
  fix files :: "fsnode list"
  show "\<And>ev baseConfig sourceDirectory destDirectory sourceDirectoryConfig s x xa xb y x2 xc xd xe x2a xf ya.
       (Inr (ev, xb, sourceDirectory, destDirectory, xf, filter isDirectory files, ya),
        Inl (ev, baseConfig, sourceDirectory, destDirectory, sourceDirectoryConfig, files, s))
       \<in> measure (\<lambda>x. case x of
          Inl (ev, b, sd, dd, cfg, files, s) \<Rightarrow> 2 * size_list size files + 1
        | Inr (ev, c, sd, dd, pages, ds, s) \<Rightarrow> 2 * size_list size ds)"
    using filter_size [of isDirectory files] by simp
qed auto


section \<open>Notions used in the statements\<close>

text \<open>A string of the form \<^verbatim>\<open>YYYY-MM-DD\<close>.\<close>

definition is_iso_date :: "string \<Rightarrow> bool" where
  "is_iso_date d =
     (length d = 10 \<and> is_digit (d ! 0) \<and> is_digit (d ! 1) \<and> is_digit (d ! 2) \<and>
      is_digit (d ! 3) \<and> d ! 4 = CHR ''-'' \<and> is_digit (d ! 5) \<and> is_digit (d ! 6) \<and>
      d ! 7 = CHR ''-'' \<and> is_digit (d ! 8) \<and> is_digit (d ! 9))"

text \<open>The fields of the generator instance.\<close>

definition inst :: "gstate \<Rightarrow> bool \<times> string \<times> string \<times> obj \<times> bool \<times> bool" where
  "inst s = (initialized s, baseSourceDirectory s, baseDestDirectory s, baseTemplateData s,
             templateGenerator s, ampGenerator s)"

text \<open>
  The page configuration \<open>processContentFiles\<close> starts from for a file: a copy of the
  directory configuration with \<^verbatim>\<open>filename\<close> and \<^verbatim>\<open>source\<close> set (lines 271-273).
\<close>

definition page_config0 :: "obj \<Rightarrow> string \<Rightarrow> string \<Rightarrow> obj" where
  "page_config0 currentDirectoryConfig sourceDirectory currentFileName =
     setp ''source'' (Str (path_join [sourceDirectory, currentFileName]))
       (setp ''filename'' (Str currentFileName) (assign [] currentDirectoryConfig))"

text \<open>
  The page lists the recursive calls return, one per subdirectory in listing order, each
  call starting in the state its predecessor left.
\<close>

fun sub_results :: "env \<Rightarrow> nat \<Rightarrow> string \<Rightarrow> string \<Rightarrow> fsnode list \<Rightarrow> gstate
    \<Rightarrow> error + (nat list list \<times> gstate)" where
  "sub_results ev cur sourceDirectory destDirectory [] s = Inr ([], s)"
| "sub_results ev cur sourceDirectory destDirectory (File n fm body # ds) s =
     sub_results ev cur sourceDirectory destDirectory ds s"
| "sub_results ev cur sourceDirectory destDirectory (Dir n cfg files # ds) s =
     (case generate ev cur (path_join [sourceDirectory, n]) (path_join [destDirectory, n]) cfg files s of
        Inl e \<Rightarrow> Inl e
      | Inr (sub, s1) \<Rightarrow>
          (case sub_results ev cur sourceDirectory destDirectory ds s1 of
             Inl e \<Rightarrow> Inl e
           | Inr (subs, s2) \<Rightarrow> Inr (sub # subs, s2)))"

fun is_console_error :: "event \<Rightarrow> bool" where
  "is_console_error (ConsoleError m) = True"
| "is_console_error e = False"

text \<open>What a run leaves behind, the error log aside.\<close>

definition outcome :: "error + (nat list \<times> gstate)
    \<Rightarrow> error + (nat list \<times> obj list \<times> event list)" where
  "outcome r =
     (case r of
        Inl e \<Rightarrow> Inl e
      | Inr (pages, s) \<Rightarrow>
          Inr (pages, heap s, filter (\<lambda>e. \<not> is_console_error e) (events s)))"

text \<open>The files written, in order.\<close>

definition written_files :: "event list \<Rightarrow> string list" where
  "written_files evs = concat (map (\<lambda>e. case e of WriteFile p c \<Rightarrow> [p] | _ \<Rightarrow> []) evs)"

text \<open>
  The page object that rendering a content file leaves in the store, as a function of the
  destination root, the directory's resolved destination, its source path, its configuration
  and the file: lines 271-273 (\<open>page_config0\<close>), 163-206 (\<open>page_metadata\<close>), 302-364
  (\<open>parseContentFile\<close>) and 211.
\<close>

fun rendered_page :: "env \<Rightarrow> string \<Rightarrow> string \<Rightarrow> string \<Rightarrow> obj \<Rightarrow> fsnode \<Rightarrow> error + obj" where
  "rendered_page ev baseDest actualDestDirectory sourceDirectory currentDirectoryConfig
       (File currentFileName frontMatter content) =
     (case page_metadata baseDest actualDestDirectory
             (page_config0 currentDirectoryConfig sourceDirectory currentFileName) of
        Inl e \<Rightarrow> Inl e
      | Inr pc \<Rightarrow>
          (case rewrite_references pc content of
             Inl e \<Rightarrow> Inl e
           | Inr markdownContent \<Rightarrow>
               (let pc1 = normalize_date (assign pc frontMatter)
                in case getp pc1 ''filename'' of
                     Str filename \<Rightarrow>
                       if drop 1 (path_extname filename) = ''md'' then
                         (let html = marked ev markdownContent
                          in Inr (setp ''content_html'' (Str html) (extract_excerpt html pc1)))
                       else Inl (UnsupportedExtension (drop 1 (path_extname filename)))
                   | _ \<Rightarrow> Inl TypeError)))"
| "rendered_page ev baseDest actualDestDirectory sourceDirectory currentDirectoryConfig
       (Dir n cfg files) = Inl TypeError"

text \<open>The configuration objects the template generator was called with, in order.\<close>

definition template_refs :: "event list \<Rightarrow> nat list" where
  "template_refs evs =
     concat (map (\<lambda>e. case e of TemplateGenerate src dst c ps \<Rightarrow> [c] | _ \<Rightarrow> []) evs)"

text \<open>Two states that differ in the error log only, and two runs that end so.\<close>

definition sim :: "gstate \<Rightarrow> gstate \<Rightarrow> bool" where
  "sim s t = (heap s = heap t \<and> inst s = inst t \<and>
              filter (\<lambda>e. \<not> is_console_error e) (events s) =
              filter (\<lambda>e. \<not> is_console_error e) (events t))"

definition same_run :: "error + ('a \<times> gstate) \<Rightarrow> error + ('a \<times> gstate) \<Rightarrow> bool" where
  "same_run r r' =
     (case r of
        Inl e \<Rightarrow> r' = Inl e
      | Inr (x, s) \<Rightarrow> (case r' of Inl e' \<Rightarrow> False | Inr (x', s') \<Rightarrow> x = x' \<and> sim s s'))"

text \<open>
  A call of the AMP generator that failed, and the failed calls minus the errors logged.
\<close>

fun amp_failed :: "env \<Rightarrow> event \<Rightarrow> bool" where
  "amp_failed ev (AmpGenerate templateData) = (ampGenerate ev templateData \<noteq> None)"
| "amp_failed ev e = False"

definition unlogged :: "env \<Rightarrow> gstate \<Rightarrow> int" where
  "unlogged ev s = int (length (filter (amp_failed ev) (events s)))
                   - int (length (filter is_console_error (events s)))"

text \<open>No front matter in the tree declares \<^verbatim>\<open>filename\<close>.\<close>

fun keeps_filename :: "fsnode \<Rightarrow> bool" where
  "keeps_filename (File n fm body) = (map_of fm ''filename'' = None)"
| "keeps_filename (Dir n cfg files) = list_all keeps_filename files"

text \<open>
  \<open>frame s s'\<close>: from \<open>s\<close> to \<open>s'\<close> no object that exists in \<open>s\<close> changes, objects are only
  added, and effects are only appended.  \<open>touches r s s'\<close>: only object \<open>r\<close> may change, no
  object is added, effects are only appended and the instance fields stay.
\<close>

definition frame :: "gstate \<Rightarrow> gstate \<Rightarrow> bool" where
  "frame s s' = (nxt s \<le> nxt s' \<and> (\<forall>q<nxt s. heap s' ! q = heap s ! q) \<and>
                 (\<exists>evs. events s' = events s @ evs))"

definition touches :: "nat \<Rightarrow> gstate \<Rightarrow> gstate \<Rightarrow> bool" where
  "touches r s s' = (nxt s' = nxt s \<and> (\<forall>q. q \<noteq> r \<longrightarrow> heap s' ! q = heap s ! q) \<and>
                     (\<exists>evs. events s' = events s @ evs) \<and> inst s' = inst s)"

text \<open>The state of \<open>generate\<close> after lines 73-93: initialised, the directory's configuration allocated.\<close>

definition enter :: "nat \<Rightarrow> string \<Rightarrow> string \<Rightarrow> obj \<Rightarrow> fsnode list \<Rightarrow> gstate \<Rightarrow> gstate" where
  "enter b src dst cfg files s =
     snd (alloc (directory_config (heap s ! b) cfg (''index.md'' \<in> set (map node_name files)) dst)
            (initialize b src dst s))"

subsection \<open>Example runs\<close>

definition ev0 :: env where
  "ev0 = \<lparr>marked = (\<lambda>m. m), applyTemplate = (\<lambda>layout d. []), ampGenerate = (\<lambda>d. None)\<rparr>"

text \<open>An AMP generator that fails on every page.\<close>

definition ev_amp_fails :: env where
  "ev_amp_fails = ev0\<lparr>ampGenerate := (\<lambda>d. Some ''boom'')\<rparr>"

text \<open>A fresh generator; the site configuration is object 0 of the store.\<close>

definition st0 :: gstate where
  "st0 = \<lparr>heap = [[]], events = [], initialized = False,
          baseSourceDirectory = [], baseDestDirectory = [], baseTemplateData = [],
          templateGenerator = False, ampGenerator = False\<rparr>"

text \<open>A generator whose site configuration has a title.\<close>

definition st_site :: gstate where
  "st_site = st0\<lparr>heap := [[(''title'', Str ''T'')]]\<rparr>"

text \<open>
  Two pages at the top and two sibling directories with a page each; the first sibling
  overrides \<^verbatim>\<open>layout\<close> in its configuration file.
\<close>

definition tree_siblings :: "fsnode list" where
  "tree_siblings =
     [File ''a.md'' [] ''x'', File ''b.md'' [] ''y'',
      Dir ''p'' [(''layout'', Str ''wide'')] [File ''c.md'' [] ''z''],
      Dir ''q'' [] [File ''e.md'' [] ''u'']]"

text \<open>A page at the top and a subdirectory with a page.\<close>

definition tree_small :: "fsnode list" where
  "tree_small = [File ''c.md'' [] ''x'', Dir ''b'' [] [File ''a.md'' [] ''y'']]"

text \<open>The content package \<^verbatim>\<open>/projects/2023-09-01-widget/\<close> with a loose file beside \<^verbatim>\<open>index.md\<close>.\<close>

definition tree_widget :: "fsnode list" where
  "tree_widget =
     [Dir ''projects'' []
        [Dir ''2023-09-01-widget'' []
           [File ''index.md'' [] ''w'', File ''about.md'' [] ''a'']]]"

text \<open>The content package \<^verbatim>\<open>/projects/2023-09-01-widget/\<close> alone.\<close>

definition tree_package :: "fsnode list" where
  "tree_package =
     [Dir ''projects'' [] [Dir ''2023-09-01-widget'' [] [File ''index.md'' [] ''w'']]]"

text \<open>A markdown file whose front matter declares \<^verbatim>\<open>filename: a.txt\<close>.\<close>

definition tree_renamed :: "fsnode list" where
  "tree_renamed = [File ''a.md'' [(''filename'', Str ''a.txt'')] ''b'']"

section \<open>Lemmas about objects\<close>

lemma map_of_setp: "map_of (setp k v ob) = (map_of ob)(k \<mapsto> v)"
  by (induction ob) (auto simp: fun_eq_iff)

lemma getp_setp: "getp (setp k v ob) k' = (if k' = k then v else getp ob k')"
  by (simp add: getp_def map_of_setp)

lemma map_of_assign_keys:
  "set ks \<subseteq> fst ` set source \<Longrightarrow>
   map_of (foldl (\<lambda>ob k. setp k (getp source k) ob) target ks) = map_of target ++ (map_of source |` set ks)"
proof (induction ks arbitrary: target)
  case Nil
  show ?case by simp
next
  case (Cons k ks)
  from Cons.prems obtain v where v: "map_of source k = Some v"
    by (cases "map_of source k") (auto simp: map_of_eq_None_iff)
  have "map_of (foldl (\<lambda>ob k. setp k (getp source k) ob) (setp k (getp source k) target) ks)
        = map_of (setp k (getp source k) target) ++ (map_of source |` set ks)"
    using Cons.prems by (intro Cons.IH) simp
  also have "\<dots> = map_of target ++ (map_of source |` set (k # ks))"
    using v by (auto simp: map_of_setp getp_def fun_eq_iff map_add_def restrict_map_def
        split: option.splits)
  finally show ?case by simp
qed

lemma map_of_assign: "map_of (assign target source) = map_of target ++ map_of source"
proof -
  have "map_of source |` set (map fst source) = map_of source"
    by (auto simp: fun_eq_iff restrict_map_def map_of_eq_None_iff [symmetric])
  then show ?thesis
    unfolding assign_def using map_of_assign_keys [of "map fst source" source target] by simp
qed

lemma getp_assign:
  "getp (assign target source) k = (case map_of source k of None \<Rightarrow> getp target k | Some v \<Rightarrow> v)"
  by (simp add: getp_def map_of_assign map_add_def split: option.splits)

lemma getp_assign_empty: "getp (assign [] ob) k = getp ob k"
  by (simp add: getp_def map_of_assign)

section \<open>The name patterns\<close>

text \<open>A name that starts with a date and a separator is matched from its first character.\<close>

lemma rmatch_star_all:
  "\<forall>x\<in>set s. p x \<Longrightarrow> rmatch r False [] st = Some res \<Longrightarrow> rmatch r b [] st = Some res
   \<Longrightarrow> rmatch (Star p # r) b s st = Some res"
  by (induction s arbitrary: b) auto

lemma rmatch_OptI:
  "rmatch (xs @ r) b s st = Some res \<Longrightarrow> rmatch (Opt xs # r) b s st = Some res"
  by simp

lemma length_10E:
  assumes "length d = 10"
  obtains y1 y2 y3 y4 h1 m1 m2 h2 d1 d2 where "d = [y1, y2, y3, y4, h1, m1, m2, h2, d1, d2]"
proof -
  from assms have "length d = Suc (Suc (Suc (Suc (Suc (Suc (Suc (Suc (Suc (Suc 0)))))))))"
    by simp
  then show ?thesis
    using that by (auto simp: length_Suc_conv)
qed

lemma rmatch_dated_chars:
  assumes d: "d = [y1, y2, y3, y4, CHR ''-'', m1, m2, CHR ''-'', d1, d2]"
    and dg: "is_digit y1" "is_digit y2" "is_digit y3" "is_digit y4"
      "is_digit m1" "is_digit m2" "is_digit d1" "is_digit d2"
    and c: "c = CHR ''-'' \<or> c = CHR ''_''"
    and sl: "\<forall>x\<in>set slug. is_dot x"
    and tail: "\<And>b st. rmatch r b [] st = Some ([], st)"
  shows "\<exists>st. rmatch (Opt re_date_group # Opt [Cls is_sep] # Open 2 # Star is_dot # Close 2 # r)
               True (d @ c # slug) mstate0 = Some ([], st) \<and>
     caps st 1 = Str d \<and> caps st 2 = Str slug"
proof -
  have sep: "is_sep c" using c by (auto simp: is_sep_def)
  define st0 where "st0 = mstate0\<lparr>opens := (opens mstate0)(1 := d @ c # slug)\<rparr>"
  define st1 where "st1 = st0\<lparr>caps := (caps st0)(1 := Str d)\<rparr>"
  define st2 where "st2 = st1\<lparr>opens := (opens st1)(2 := slug)\<rparr>"
  define st3 where "st3 = st2\<lparr>caps := (caps st2)(2 := Str slug)\<rparr>"
  define rst where "rst = Star is_dot # Close 2 # r"
  have close: "rmatch (Close 2 # r) b [] st2 = Some ([], st3)" for b
    by (simp add: st2_def st3_def tail)
  have star: "rmatch rst False slug st2 = Some ([], st3)"
    unfolding rst_def by (rule rmatch_star_all [OF sl close close])
  have "rmatch ([Cls is_sep] @ Open 2 # rst) False (c # slug) st1 = Some ([], st3)"
    using sep star by (simp add: st2_def)
  then have B: "rmatch (Opt [Cls is_sep] # Open 2 # rst) False (c # slug) st1 = Some ([], st3)"
    by (rule rmatch_OptI)
  have "rmatch (re_date_group @ Opt [Cls is_sep] # Open 2 # rst) True (d @ c # slug) mstate0
        = rmatch (Opt [Cls is_sep] # Open 2 # rst) False (c # slug) st1"
    using dg by (simp add: d re_date_group_def lit_def st1_def st0_def del: rmatch.simps(3,5))
  with B have "rmatch (Opt re_date_group # Opt [Cls is_sep] # Open 2 # rst) True (d @ c # slug) mstate0
        = Some ([], st3)"
    by (simp del: rmatch.simps(3))
  moreover have "caps st3 1 = Str d" "caps st3 2 = Str slug"
    by (simp_all add: st3_def st2_def st1_def)
  ultimately show ?thesis unfolding rst_def by blast
qed

lemma rmatch_dated:
  assumes "is_iso_date d" "c = CHR ''-'' \<or> c = CHR ''_''" "\<forall>x\<in>set slug. is_dot x"
    and tail: "\<And>b st. rmatch r b [] st = Some ([], st)"
  shows "\<exists>st. rmatch (Opt re_date_group # Opt [Cls is_sep] # Open 2 # Star is_dot # Close 2 # r)
               True (d @ c # slug) mstate0 = Some ([], st) \<and>
     caps st 1 = Str d \<and> caps st 2 = Str slug"
proof -
  from assms(1) have len: "length d = 10" by (simp add: is_iso_date_def)
  then obtain y1 y2 y3 y4 h1 m1 m2 h2 d1 d2 where d: "d = [y1, y2, y3, y4, h1, m1, m2, h2, d1, d2]"
    by (rule length_10E)
  from assms(1) have e: "h1 = CHR ''-''" "h2 = CHR ''-''" "is_digit y1" "is_digit y2" "is_digit y3"
    "is_digit y4" "is_digit m1" "is_digit m2" "is_digit d1" "is_digit d2"
    unfolding d is_iso_date_def by simp_all
  have d': "d = [y1, y2, y3, y4, CHR ''-'', m1, m2, CHR ''-'', d1, d2]"
    using d e(1,2) by simp
  show ?thesis
    by (rule rmatch_dated_chars [OF d' e(3-10) assms(2,3) tail])
qed

lemma js_match_filename_dated:
  assumes "is_iso_date d" "c = CHR ''-'' \<or> c = CHR ''_''" "\<forall>x\<in>set slug. is_dot x"
  shows "\<exists>g. js_match re_filename (d @ c # slug) = Some g \<and> g 1 = Str d \<and> g 2 = Str slug"
proof -
  have "rmatch [Opt [lit CHR ''.'']] b [] st = Some ([], st)" for b st
    by (simp add: lit_def)
  from rmatch_dated [OF assms this] show ?thesis
    by (auto simp: js_match_def re_filename_def)
qed

lemma js_match_dirname_dated:
  assumes "is_iso_date d" "c = CHR ''-'' \<or> c = CHR ''_''" "\<forall>x\<in>set slug. is_dot x"
  shows "\<exists>g. js_match re_dirname (d @ c # slug) = Some g \<and> g 1 = Str d \<and> g 2 = Str slug"
proof -
  have "rmatch [] b [] st = Some ([], st)" for b st
    by simp
  from rmatch_dated [OF assms this] show ?thesis
    by (auto simp: js_match_def re_dirname_def)
qed

text \<open>
  Claim C5.  For a content file whose name, with the extension stripped by
  \<^verbatim>\<open>/\.[\w]+$/\<close>, is a date \<^verbatim>\<open>YYYY-MM-DD\<close>, a separator \<^verbatim>\<open>-\<close> or \<^verbatim>\<open>_\<close> and a slug
  (a slug has no line terminator), lines 165-184 of \<open>renderContentFile\<close> leave in the page
  configuration: as \<^verbatim>\<open>date\<close> the date substring, unless the configuration already carries
  a date; as \<^verbatim>\<open>slug\<close> the remainder after the separator, unless the configuration already
  carries a slug or its alias \<^verbatim>\<open>permalink\<close>.  This holds for both separators.
\<close>

theorem date_and_slug_from_filename:
  assumes "getp pc ''filename'' = Str fn"
    and "replace_re re_extension [] fn = d @ c # slug"
    and "is_iso_date d" and "c = CHR ''-'' \<or> c = CHR ''_''" and "\<forall>x\<in>set slug. is_dot x"
  shows "\<exists>pc'. derive_date_slug (permalink_alias pc) = Inr pc' \<and>
     getp pc' ''date'' = (if truthy (getp pc ''date'') then getp pc ''date'' else Str d) \<and>
     getp pc' ''slug'' =
       (if truthy (getp pc ''slug'') then getp pc ''slug''
        else if truthy (getp pc ''permalink'') then getp pc ''permalink''
        else Str slug)"
proof -
  from js_match_filename_dated [OF assms(3-5)] obtain g where
    g: "js_match re_filename (d @ c # slug) = Some g" "g 1 = Str d" "g 2 = Str slug"
    by blast
  show ?thesis
    using assms(1,2) g
    by (auto simp: derive_date_slug_def permalink_alias_def getp_setp Let_def)
qed

theorem date_and_slug_from_filename_witness:
  "(\<exists>pc'. derive_date_slug (permalink_alias [(''filename'', Str ''2024-01-05-hello-world.md'')]) = Inr pc' \<and>
     getp pc' ''date'' = Str ''2024-01-05'' \<and> getp pc' ''slug'' = Str ''hello-world'') \<and>
   (\<exists>pc'. derive_date_slug (permalink_alias [(''filename'', Str ''2024-01-05_hello-world.md'')]) = Inr pc' \<and>
     getp pc' ''date'' = Str ''2024-01-05'' \<and> getp pc' ''slug'' = Str ''hello-world'')"
proof -
  have 1: "getp [(''filename'', Str n)] ''filename'' = Str n" for n
    by (simp add: getp_def)
  have 2: "replace_re re_extension [] ''2024-01-05-hello-world.md'' = ''2024-01-05'' @ CHR ''-'' # ''hello-world''"
    "replace_re re_extension [] ''2024-01-05_hello-world.md'' = ''2024-01-05'' @ CHR ''_'' # ''hello-world''"
    by code_simp+
  have 3: "is_iso_date ''2024-01-05''"
    by (simp add: is_iso_date_def is_digit_def)
  have 4: "\<forall>x\<in>set ''hello-world''. is_dot x"
    by (simp add: is_dot_def)
  show ?thesis
    using date_and_slug_from_filename [OF 1 2(1) 3 _ 4] date_and_slug_from_filename [OF 1 2(2) 3 _ 4]
    by (simp add: getp_def)
qed



section \<open>The store: what a call may change\<close>

declare generate.simps [simp del]

lemma upd_simps [simp]:
  "nxt (upd r f s) = nxt s"
  "events (upd r f s) = events s"
  "inst (upd r f s) = inst s"
  "q \<noteq> r \<Longrightarrow> heap (upd r f s) ! q = heap s ! q"
  "r < nxt s \<Longrightarrow> heap (upd r f s) ! r = f (heap s ! r)"
  by (simp_all add: upd_def inst_def nxt_def)

lemma emit_simps [simp]:
  "nxt (emit e s) = nxt s"
  "events (emit e s) = events s @ [e]"
  "inst (emit e s) = inst s"
  "heap (emit e s) = heap s"
  by (simp_all add: emit_def inst_def nxt_def)

lemma alloc_simps [simp]:
  "fst (alloc ob s) = nxt s"
  "nxt (snd (alloc ob s)) = Suc (nxt s)"
  "events (snd (alloc ob s)) = events s"
  "inst (snd (alloc ob s)) = inst s"
  "heap (snd (alloc ob s)) = heap s @ [ob]"
  by (simp_all add: alloc_def inst_def nxt_def)

lemma case_alloc [simp]:
  "(case alloc ob s of (r, s1) \<Rightarrow> f r s1) = f (nxt s) (snd (alloc ob s))"
  by (simp add: alloc_def)

lemma initialize_simps [simp]:
  "nxt (initialize b src dst s) = nxt s"
  "events (initialize b src dst s) = events s"
  "heap (initialize b src dst s) = heap s"
  "initialized (initialize b src dst s)"
  "templateGenerator (initialize b src dst s) = (initialized s \<longrightarrow> templateGenerator s)"
  by (simp_all add: initialize_def nxt_def)

lemma initialize_idem [simp]: "initialized s \<Longrightarrow> initialize b src dst s = s"
  by (simp add: initialize_def)

lemma inst_initialized: "inst s' = inst s \<Longrightarrow> initialized s' = initialized s"
  and inst_templateGenerator: "inst s' = inst s \<Longrightarrow> templateGenerator s' = templateGenerator s"
  and inst_baseDest: "inst s' = inst s \<Longrightarrow> baseDestDirectory s' = baseDestDirectory s"
  and inst_ampGenerator: "inst s' = inst s \<Longrightarrow> ampGenerator s' = ampGenerator s"
  by (simp_all add: inst_def)

lemma frame_refl [simp]: "frame s s"
  by (simp add: frame_def)

lemma frame_trans: "frame s t \<Longrightarrow> frame t u \<Longrightarrow> frame s u"
  by (auto simp: frame_def)

lemma frame_nxt: "frame s s' \<Longrightarrow> nxt s \<le> nxt s'"
  and frame_heap: "frame s s' \<Longrightarrow> q < nxt s \<Longrightarrow> heap s' ! q = heap s ! q"
  and frame_events: "frame s s' \<Longrightarrow> \<exists>evs. events s' = events s @ evs"
  by (auto simp: frame_def)

lemma touches_refl [simp]: "touches r s s"
  by (simp add: touches_def)

lemma touches_trans: "touches r s t \<Longrightarrow> touches r t u \<Longrightarrow> touches r s u"
  by (auto simp: touches_def)

lemma touches_emit [simp]: "touches r s (emit e s)"
  by (simp add: touches_def)

lemma touches_upd [simp]: "touches r s (upd r f s)"
  by (simp add: touches_def)

lemma touches_frame: "touches r s s' \<Longrightarrow> nxt s0 \<le> r \<Longrightarrow> frame s0 s \<Longrightarrow> frame s0 s'"
  by (auto simp: touches_def frame_def)

lemma frame_alloc [simp]: "frame s (snd (alloc ob s))"
  by (simp add: frame_def nth_append nxt_def)

lemma frame_emit [simp]: "frame s (emit e s)"
  by (simp add: frame_def)

lemma frame_initialize [simp]: "frame s (initialize b src dst s)"
  by (simp add: frame_def)

lemma parseContentFile_touches:
  assumes "parseContentFile ev r fm c s = Inr (html, s')"
  shows "touches r s s'"
proof -
  from assms obtain source md fn where
    s': "s' = upd r (extract_excerpt html)
               (upd r (\<lambda>pc. normalize_date (assign pc fm)) (emit (ReadFile source) s))"
    by (auto simp: parseContentFile_def Let_def split: jsval.splits sum.splits if_splits)
  show ?thesis unfolding s'
    by (rule touches_trans [OF touches_emit touches_trans [OF touches_upd touches_upd]])
qed

lemma renderContentFile_touches:
  assumes "renderContentFile ev r D fm c s = Inr (td, s')"
  shows "touches r s s'"
proof -
  from assms obtain pc html s1 logged dd out where
    p: "parseContentFile ev r fm c (upd r (\<lambda>_. pc) s) = Inr (html, s1)"
    and s': "s' = emit (WriteFile (path_join [dd, contentPageName]) out)
                   (emit (EnsureDir dd) (emit (ConsoleLog logged)
                      (upd r (setp ''content_html'' (Str html)) s1)))"
    by (auto simp: renderContentFile_def Let_def split: sum.splits prod.splits)
  have "touches r s s1"
    by (rule touches_trans [OF touches_upd parseContentFile_touches [OF p]])
  then show ?thesis unfolding s'
    by (intro touches_trans [OF _ touches_emit] touches_trans [OF _ touches_upd])
qed

lemma amp_step_touches: "touches r s (amp_step ev n td s)"
  by (auto simp: amp_step_def split: option.splits intro: touches_trans [OF touches_emit touches_emit])

lemma copy_assets_frame: "frame s (copy_assets src D fs s) \<and> inst (copy_assets src D fs s) = inst s
    \<and> nxt (copy_assets src D fs s) = nxt s \<and> heap (copy_assets src D fs s) = heap s"
proof (induction fs arbitrary: s)
  case Nil
  show ?case by simp
next
  case (Cons f fs)
  show ?case
    using Cons [of "emit (CopyFile (path_join [src, node_name f]) (path_join [D, node_name f])) s"]
    by (auto intro: frame_trans [OF frame_emit])
qed

lemma processAssetFiles_simps [simp]:
  "frame s (processAssetFiles src fs D s)"
  "inst (processAssetFiles src fs D s) = inst s"
  "nxt (processAssetFiles src fs D s) = nxt s"
  "heap (processAssetFiles src fs D s) = heap s"
  using copy_assets_frame [of s src D "filter is_asset fs"]
  by (simp_all add: processAssetFiles_def)

lemma content_loop_frame:
  "content_loop ev src D cur acc fs s = Inr (pages, s') \<Longrightarrow> frame s s' \<and> inst s' = inst s"
proof (induction ev src D cur acc fs s arbitrary: pages s' rule: content_loop.induct)
  case (1 ev src D cur acc s)
  then show ?case by simp
next
  case (2 ev src D cur acc n cfg es fs s)
  then show ?case by simp
next
  case (3 ev src D cur acc name fm content fs s)
  define s1 where "s1 = snd (alloc (assign [] (heap s ! cur)) s)"
  define s2 where "s2 = upd (nxt s)
      (\<lambda>pc. setp ''source'' (Str (path_join [src, name])) (setp ''filename'' (Str name) pc)) s1"
  from "3.prems" obtain td s3 where
    r: "renderContentFile ev (nxt s) D fm content s2 = Inr (td, s3)"
    and l: "content_loop ev src D cur (acc @ [nxt s]) fs (amp_step ev name td s3) = Inr (pages, s')"
    by (auto simp: Let_def s1_def s2_def split: sum.splits prod.splits)
  have t: "touches (nxt s) s1 (amp_step ev name td s3)"
    unfolding s2_def [symmetric]
    by (rule touches_trans [OF touches_trans [OF _ renderContentFile_touches [OF r]] amp_step_touches])
       (simp add: s2_def)
  have f: "frame s (amp_step ev name td s3)"
    by (rule touches_frame [OF t]) (simp_all add: s1_def)
  have i: "inst (amp_step ev name td s3) = inst s"
    using t by (simp add: touches_def s1_def)
  from "3.IH" [OF _ _ _ r _ l] have "frame (amp_step ev name td s3) s' \<and> inst s' = inst (amp_step ev name td s3)"
    by (simp add: s1_def s2_def alloc_def)
  with f i show ?case by (auto intro: frame_trans)
qed

section \<open>The structure of a call of generate\<close>

lemma nth_heap_append [simp]:
  "(heap s @ [ob]) ! nxt s = ob"
  "q < nxt s \<Longrightarrow> (heap s @ xs) ! q = heap s ! q"
  by (simp_all add: nxt_def nth_append)

lemma enter_simps [simp]:
  "nxt (enter b src dst cfg files s) = Suc (nxt s)"
  "events (enter b src dst cfg files s) = events s"
  "inst (enter b src dst cfg files s) = inst (initialize b src dst s)"
  "initialized (enter b src dst cfg files s)"
  "heap (enter b src dst cfg files s) ! nxt s =
     directory_config (heap s ! b) cfg (''index.md'' \<in> set (map node_name files)) dst"
  "q < nxt s \<Longrightarrow> heap (enter b src dst cfg files s) ! q = heap s ! q"
  "frame s (enter b src dst cfg files s)"
  by (simp_all add: enter_def frame_def alloc_def inst_def nxt_def nth_append)

lemma generate_InrE:
  assumes "generate ev b src dst cfg files s = Inr (pages, s')"
  obtains D own s4 s5 where
    "overridden_dest (baseDestDirectory (enter b src dst cfg files s)) dst
       (''index.md'' \<in> set (map node_name files)) (heap (enter b src dst cfg files s) ! nxt s) = Inr D"
    "processContentFiles ev src files D (nxt s)
       (processAssetFiles src files D (emit (EnsureDir D) (enter b src dst cfg files s))) = Inr (own, s4)"
    "traverse ev (nxt s) src dst own (filter isDirectory files) s4 = Inr (pages, s5)"
    "s' = (if templateGenerator s5 then emit (TemplateGenerate src dst (nxt s) pages) s5 else s5)"
  using assms
  by (auto simp: generate.simps Let_def enter_def split: sum.splits)

lemma processContentFiles_frame:
  "processContentFiles ev src files D cur s = Inr (pages, s') \<Longrightarrow> frame s s' \<and> inst s' = inst s"
  unfolding processContentFiles_def by (rule content_loop_frame)

lemma generate_traverse_frame:
  "generate ev b src dst cfg files s = Inr (pages, s') \<Longrightarrow>
     frame s s' \<and> nxt s < nxt s' \<and> inst s' = inst (initialize b src dst s)"
  "traverse ev cur src dst acc ds s = Inr (pages', s'') \<Longrightarrow> initialized s \<Longrightarrow>
     frame s s'' \<and> inst s'' = inst s"
proof (induction ev b src dst cfg files s and ev cur src dst acc ds s
       arbitrary: pages s' and pages' s'' rule: generate_traverse.induct)
  case (1 ev b src dst cfg files s)
  let ?e = "enter b src dst cfg files s"
  from "1.prems" obtain D own s4 s5 where
    D: "overridden_dest (baseDestDirectory ?e) dst
       (''index.md'' \<in> set (map node_name files)) (heap ?e ! nxt s) = Inr D"
    and own: "processContentFiles ev src files D (nxt s)
       (processAssetFiles src files D (emit (EnsureDir D) ?e)) = Inr (own, s4)"
    and tr: "traverse ev (nxt s) src dst own (filter isDirectory files) s4 = Inr (pages, s5)"
    and s': "s' = (if templateGenerator s5 then emit (TemplateGenerate src dst (nxt s) pages) s5 else s5)"
    by (rule generate_InrE)
  from processContentFiles_frame [OF own]
  have f4: "frame ?e s4" and i4: "inst s4 = inst (initialize b src dst s)"
    by (auto intro: frame_trans [OF frame_emit] frame_trans [OF processAssetFiles_simps(1)]
        dest: frame_trans [OF frame_trans [OF frame_emit processAssetFiles_simps(1)]])
  have init4: "initialized s4"
    using inst_initialized [OF i4] by simp
  have f45: "frame s4 s5 \<and> inst s5 = inst s4"
    using "1.IH" [of "initialize b src dst s" "''index.md'' \<in> set (map node_name files)"
        "alloc (directory_config (heap s ! b) cfg (''index.md'' \<in> set (map node_name files)) dst)
           (initialize b src dst s)" "nxt s" ?e D "emit (EnsureDir D) ?e"
        "processAssetFiles src files D (emit (EnsureDir D) ?e)" "(own, s4)" own s4 pages s5]
      D own tr init4
    by (simp add: enter_def alloc_def nxt_def)
  have f5: "frame s s5"
    using f4 f45 by (blast intro: frame_trans enter_simps(7))
  have n5: "Suc (nxt s) \<le> nxt s5"
    using frame_nxt [OF f4] f45 by (auto dest: frame_nxt)
  have "inst s5 = inst (initialize b src dst s)"
    using f45 i4 by simp
  with f5 n5 show ?case unfolding s'
    by (auto intro: frame_trans [OF _ frame_emit])
next
  case (2 ev cur src dst acc s)
  then show ?case by simp
next
  case (3 ev cur src dst acc n fm body ds s)
  then show ?case by simp
next
  case (4 ev cur src dst acc n cfg files ds s)
  from "4.prems" obtain sub s1 where
    g: "generate ev cur (path_join [src, n]) (path_join [dst, n]) cfg files s = Inr (sub, s1)"
    and t: "traverse ev cur src dst (acc @ sub) ds s1 = Inr (pages', s'')"
    by (auto split: sum.splits)
  from "4.IH"(1) [OF g] "4.prems"(2)
  have f1: "frame s s1" and i1: "inst s1 = inst s"
    by simp_all
  have "initialized s1" using inst_initialized [OF i1] "4.prems"(2) by simp
  from "4.IH"(2) [OF g refl t this] f1 i1 show ?case
    by (auto intro: frame_trans)
qed

lemma traverse_sub_results:
  "traverse ev cur src dst acc ds s = Inr (pages, s') \<longleftrightarrow>
     (\<exists>subs. sub_results ev cur src dst ds s = Inr (subs, s') \<and> pages = acc @ concat subs)"
proof (induction ds arbitrary: acc s)
  case Nil
  show ?case by auto
next
  case (Cons d ds)
  show ?case
  proof (cases d)
    case (File n fm body)
    with Cons show ?thesis by simp
  next
    case (Dir n c fs)
    show ?thesis
      unfolding Dir using Cons
      by (auto split: sum.splits)
  qed
qed

lemma sub_results_length:
  "sub_results ev cur src dst ds s = Inr (subs, s') \<Longrightarrow> length subs = length (filter isDirectory ds)"
proof (induction ds arbitrary: s subs)
  case Nil
  then show ?case by simp
next
  case (Cons d ds)
  then show ?case
    by (cases d) (auto split: sum.splits)
qed

lemma sub_results_frame:
  assumes "sub_results ev cur src dst ds s = Inr (subs, s')" "initialized s"
  shows "frame s s' \<and> inst s' = inst s"
proof -
  from assms(1) have "traverse ev cur src dst [] ds s = Inr ([] @ concat subs, s')"
    unfolding traverse_sub_results by blast
  from generate_traverse_frame(2) [OF this assms(2)] show ?thesis .
qed

lemma sub_results_member:
  assumes "sub_results ev cur src dst ds s = Inr (subs, s')" "initialized s" "Dir n c fs \<in> set ds"
  shows "\<exists>t sub t'. generate ev cur (path_join [src, n]) (path_join [dst, n]) c fs t = Inr (sub, t') \<and>
           sub \<in> set subs \<and> frame s t \<and> frame t' s' \<and> inst t = inst s"
  using assms
proof (induction ds arbitrary: s subs)
  case Nil
  then show ?case by simp
next
  case (Cons d ds)
  show ?case
  proof (cases d)
    case (File m fm body)
    with Cons.prems have "sub_results ev cur src dst ds s = Inr (subs, s')" "Dir n c fs \<in> set ds"
      by auto
    from Cons.IH [OF this(1) Cons.prems(2) this(2)] show ?thesis .
  next
    case (Dir m c' fs')
    from Cons.prems(1) obtain sub s1 subs' where
      g: "generate ev cur (path_join [src, m]) (path_join [dst, m]) c' fs' s = Inr (sub, s1)"
      and r: "sub_results ev cur src dst ds s1 = Inr (subs', s')"
      and subs: "subs = sub # subs'"
      unfolding Dir by (auto split: sum.splits)
    from generate_traverse_frame(1) [OF g] Cons.prems(2)
    have f1: "frame s s1" and i1: "inst s1 = inst s" by simp_all
    have init1: "initialized s1" using inst_initialized [OF i1] Cons.prems(2) by simp
    show ?thesis
    proof (cases "Dir n c fs = d")
      case True
      then have "generate ev cur (path_join [src, n]) (path_join [dst, n]) c fs s = Inr (sub, s1)"
        using g Dir by simp
      moreover have "frame s1 s'" using sub_results_frame [OF r init1] by simp
      ultimately show ?thesis using subs by (intro exI [of _ s] exI [of _ sub] exI [of _ s1]) simp
    next
      case False
      with Cons.prems(3) have "Dir n c fs \<in> set ds" by simp
      from Cons.IH [OF r init1 this] obtain t sub' t' where
        "generate ev cur (path_join [src, n]) (path_join [dst, n]) c fs t = Inr (sub', t')"
        "sub' \<in> set subs'" "frame s1 t" "frame t' s'" "inst t = inst s1"
        by blast
      then show ?thesis using subs f1 i1
        by (intro exI [of _ t] exI [of _ sub'] exI [of _ t']) (auto intro: frame_trans)
    qed
  qed
qed

lemma content_loop_pages:
  "content_loop ev src D cur acc fs s = Inr (pages, s') \<Longrightarrow>
     pages = acc @ [nxt s ..< nxt s'] \<and> nxt s' = nxt s + length (filter (\<lambda>f. \<not> isDirectory f) fs)"
proof (induction ev src D cur acc fs s arbitrary: pages s' rule: content_loop.induct)
  case (1 ev src D cur acc s)
  then show ?case by simp
next
  case (2 ev src D cur acc n cfg es fs s)
  then show ?case by simp
next
  case (3 ev src D cur acc name fm content fs s)
  define s1 where "s1 = snd (alloc (assign [] (heap s ! cur)) s)"
  define s2 where "s2 = upd (nxt s)
      (\<lambda>pc. setp ''source'' (Str (path_join [src, name])) (setp ''filename'' (Str name) pc)) s1"
  from "3.prems" obtain td s3 where
    r: "renderContentFile ev (nxt s) D fm content s2 = Inr (td, s3)"
    and l: "content_loop ev src D cur (acc @ [nxt s]) fs (amp_step ev name td s3) = Inr (pages, s')"
    by (auto simp: Let_def s1_def s2_def split: sum.splits prod.splits)
  have n: "nxt (amp_step ev name td s3) = Suc (nxt s)"
    using renderContentFile_touches [OF r] amp_step_touches [of "nxt s" s3 ev name td]
    by (simp add: touches_def s2_def s1_def)
  from "3.IH" [OF _ _ _ r _ l]
  have "pages = (acc @ [nxt s]) @ [nxt (amp_step ev name td s3) ..< nxt s'] \<and>
        nxt s' = nxt (amp_step ev name td s3) + length (filter (\<lambda>f. \<not> isDirectory f) fs)"
    by (simp add: s1_def s2_def alloc_def)
  then have p: "pages = acc @ nxt s # [Suc (nxt s) ..< nxt s']"
    and k: "nxt s' = Suc (nxt s) + length (filter (\<lambda>f. \<not> isDirectory f) fs)"
    unfolding n by simp_all
  from k have "nxt s < nxt s'" by simp
  then have "[nxt s ..< nxt s'] = nxt s # [Suc (nxt s) ..< nxt s']"
    by (rule upt_conv_Cons)
  with p k show ?case by simp
qed

lemma is_content_not_dir: "(is_content f \<and> \<not> isDirectory f) = is_content f"
  by (auto simp: is_content_def)

lemma processContentFiles_pages:
  assumes "processContentFiles ev src files D cur s = Inr (own, s')"
  shows "own = [nxt s ..< nxt s']" "length own = length (filter is_content files)"
  using content_loop_pages [OF assms [unfolded processContentFiles_def]]
  by (simp_all add: is_content_not_dir)

lemma initialize_templateGenerator:
  "initialized s \<longrightarrow> templateGenerator s \<Longrightarrow> templateGenerator (initialize b src dst s)"
  by simp

text \<open>How a successful call of \<open>generate\<close> decomposes.\<close>

lemma generate_decompose:
  assumes "generate ev b src dst cfg files s = Inr (pages, s')"
  obtains D s3 own s4 subs s5 where
    "processContentFiles ev src files D (nxt s) s3 = Inr (own, s4)"
    "sub_results ev (nxt s) src dst (filter isDirectory files) s4 = Inr (subs, s5)"
    "pages = own @ concat subs"
    "s' = (if templateGenerator s5 then emit (TemplateGenerate src dst (nxt s) pages) s5 else s5)"
    "frame s (enter b src dst cfg files s)" "frame (enter b src dst cfg files s) s3" "frame s3 s4" "frame s4 s5"
    "inst s5 = inst (initialize b src dst s)" "inst s4 = inst (initialize b src dst s)"
proof -
  let ?e = "enter b src dst cfg files s"
  from assms obtain D own s4 s5 where
    own: "processContentFiles ev src files D (nxt s)
       (processAssetFiles src files D (emit (EnsureDir D) ?e)) = Inr (own, s4)"
    and tr: "traverse ev (nxt s) src dst own (filter isDirectory files) s4 = Inr (pages, s5)"
    and s': "s' = (if templateGenerator s5 then emit (TemplateGenerate src dst (nxt s) pages) s5 else s5)"
    by (rule generate_InrE)
  let ?s3 = "processAssetFiles src files D (emit (EnsureDir D) ?e)"
  from tr obtain subs where
    subs: "sub_results ev (nxt s) src dst (filter isDirectory files) s4 = Inr (subs, s5)"
      "pages = own @ concat subs"
    unfolding traverse_sub_results by blast
  have f3: "frame ?e ?s3"
    by (rule frame_trans [OF frame_emit processAssetFiles_simps(1)])
  from processContentFiles_frame [OF own]
  have f4: "frame ?s3 s4" and i4: "inst s4 = inst (initialize b src dst s)"
    by simp_all
  have "initialized s4" using inst_initialized [OF i4] by simp
  from sub_results_frame [OF subs(1) this] i4
  have f5: "frame s4 s5" and i5: "inst s5 = inst (initialize b src dst s)"
    by simp_all
  show ?thesis
    by (rule that [OF own subs s' enter_simps(7) f3 f4 f5 i5 i4])
qed

section \<open>Template calls and page objects\<close>

lemma template_refs_simps [simp]:
  "template_refs [] = []"
  "template_refs (xs @ ys) = template_refs xs @ template_refs ys"
  "template_refs (TemplateGenerate a b' c ps # xs) = c # template_refs xs"
  "template_refs (EnsureDir d # xs) = template_refs xs"
  "template_refs (CopyFile x y # xs) = template_refs xs"
  "template_refs (ReadFile x # xs) = template_refs xs"
  "template_refs (WriteFile x y # xs) = template_refs xs"
  "template_refs (ConsoleLog x # xs) = template_refs xs"
  "template_refs (ConsoleError x # xs) = template_refs xs"
  "template_refs (AmpGenerate td # xs) = template_refs xs"
  by (simp_all add: template_refs_def)

lemma parseContentFile_templates:
  "parseContentFile ev r fm c s = Inr (html, s') \<Longrightarrow>
     template_refs (events s') = template_refs (events s)"
  by (auto simp: parseContentFile_def Let_def split: jsval.splits sum.splits if_splits)

lemma renderContentFile_templates:
  "renderContentFile ev r D fm c s = Inr (td, s') \<Longrightarrow>
     template_refs (events s') = template_refs (events s)"
  by (auto simp: renderContentFile_def Let_def split: sum.splits prod.splits
      dest!: parseContentFile_templates)

lemma amp_step_templates: "template_refs (events (amp_step ev n td s)) = template_refs (events s)"
  by (auto simp: amp_step_def split: option.splits)

lemma copy_assets_templates:
  "template_refs (events (copy_assets src D fs s)) = template_refs (events s)"
  by (induction fs arbitrary: s) simp_all

lemma processAssetFiles_templates [simp]:
  "template_refs (events (processAssetFiles src fs D s)) = template_refs (events s)"
  by (simp add: processAssetFiles_def copy_assets_templates)

lemma content_loop_templates:
  "content_loop ev src D cur acc fs s = Inr (pages, s') \<Longrightarrow>
     template_refs (events s') = template_refs (events s)"
proof (induction ev src D cur acc fs s arbitrary: pages s' rule: content_loop.induct)
  case (1 ev src D cur acc s)
  then show ?case by simp
next
  case (2 ev src D cur acc n cfg es fs s)
  then show ?case by simp
next
  case (3 ev src D cur acc name fm content fs s)
  define s1 where "s1 = snd (alloc (assign [] (heap s ! cur)) s)"
  define s2 where "s2 = upd (nxt s)
      (\<lambda>pc. setp ''source'' (Str (path_join [src, name])) (setp ''filename'' (Str name) pc)) s1"
  from "3.prems" obtain td s3 where
    r: "renderContentFile ev (nxt s) D fm content s2 = Inr (td, s3)"
    and l: "content_loop ev src D cur (acc @ [nxt s]) fs (amp_step ev name td s3) = Inr (pages, s')"
    by (auto simp: Let_def s1_def s2_def split: sum.splits prod.splits)
  from "3.IH" [OF _ _ _ r _ l]
  have "template_refs (events s') = template_refs (events (amp_step ev name td s3))"
    by (simp add: s1_def s2_def alloc_def)
  with renderContentFile_templates [OF r] show ?case
    by (simp add: amp_step_templates s2_def s1_def)
qed

lemma processContentFiles_templates:
  "processContentFiles ev src files D cur s = Inr (pages, s') \<Longrightarrow>
     template_refs (events s') = template_refs (events s)"
  unfolding processContentFiles_def by (rule content_loop_templates)

text \<open>Every template call of a run is for a configuration object the run allocated.\<close>

lemma generate_traverse_templates:
  "generate ev b src dst cfg files s = Inr (pages, s') \<Longrightarrow>
     \<exists>rs. template_refs (events s') = template_refs (events s) @ rs \<and> (\<forall>c\<in>set rs. nxt s \<le> c)"
  "traverse ev cur src dst acc ds s = Inr (pages', s'') \<Longrightarrow> initialized s \<Longrightarrow>
     \<exists>rs. template_refs (events s'') = template_refs (events s) @ rs \<and> (\<forall>c\<in>set rs. nxt s \<le> c)"
proof (induction ev b src dst cfg files s and ev cur src dst acc ds s
       arbitrary: pages s' and pages' s'' rule: generate_traverse.induct)
  case (1 ev b src dst cfg files s)
  let ?e = "enter b src dst cfg files s"
  from "1.prems" obtain D own s4 s5 where
    D: "overridden_dest (baseDestDirectory ?e) dst
       (''index.md'' \<in> set (map node_name files)) (heap ?e ! nxt s) = Inr D"
    and own: "processContentFiles ev src files D (nxt s)
       (processAssetFiles src files D (emit (EnsureDir D) ?e)) = Inr (own, s4)"
    and tr: "traverse ev (nxt s) src dst own (filter isDirectory files) s4 = Inr (pages, s5)"
    and s': "s' = (if templateGenerator s5 then emit (TemplateGenerate src dst (nxt s) pages) s5 else s5)"
    by (rule generate_InrE)
  from processContentFiles_frame [OF own]
  have f4: "frame (processAssetFiles src files D (emit (EnsureDir D) ?e)) s4"
    and i4: "inst s4 = inst (initialize b src dst s)"
    by simp_all
  have init4: "initialized s4"
    using inst_initialized [OF i4] by simp
  have n4: "nxt s \<le> nxt s4"
    using frame_nxt [OF f4] by simp
  have t4: "template_refs (events s4) = template_refs (events s)"
    using processContentFiles_templates [OF own] by simp
  have "\<exists>rs. template_refs (events s5) = template_refs (events s4) @ rs \<and> (\<forall>c\<in>set rs. nxt s4 \<le> c)"
    using "1.IH" [of "initialize b src dst s" "''index.md'' \<in> set (map node_name files)"
        "alloc (directory_config (heap s ! b) cfg (''index.md'' \<in> set (map node_name files)) dst)
           (initialize b src dst s)" "nxt s" ?e D "emit (EnsureDir D) ?e"
        "processAssetFiles src files D (emit (EnsureDir D) ?e)" "(own, s4)" own s4 pages s5]
      D own tr init4
    by (simp add: enter_def alloc_def nxt_def)
  then obtain rs where rs0: "template_refs (events s5) = template_refs (events s4) @ rs"
    "\<forall>c\<in>set rs. nxt s4 \<le> c"
    by blast
  have rs: "template_refs (events s5) = template_refs (events s) @ rs"
    "\<forall>c\<in>set rs. nxt s \<le> c"
    using rs0 t4 n4 by auto
  show ?case
  proof (cases "templateGenerator s5")
    case True
    with rs have "template_refs (events s') = template_refs (events s) @ (rs @ [nxt s])"
      "\<forall>c\<in>set (rs @ [nxt s]). nxt s \<le> c"
      by (simp_all add: s')
    then show ?thesis by blast
  next
    case False
    with rs show ?thesis by (auto simp: s')
  qed
next
  case (2 ev cur src dst acc s)
  then show ?case by simp
next
  case (3 ev cur src dst acc n fm body ds s)
  then show ?case by simp
next
  case (4 ev cur src dst acc n cfg files ds s)
  from "4.prems" obtain sub s1 where
    g: "generate ev cur (path_join [src, n]) (path_join [dst, n]) cfg files s = Inr (sub, s1)"
    and t: "traverse ev cur src dst (acc @ sub) ds s1 = Inr (pages', s'')"
    by (auto split: sum.splits)
  from generate_traverse_frame(1) [OF g] "4.prems"(2)
  have f1: "frame s s1" and i1: "inst s1 = inst s"
    by simp_all
  have init1: "initialized s1" using inst_initialized [OF i1] "4.prems"(2) by simp
  from "4.IH"(1) [OF g] obtain rs1 where
    rs1: "template_refs (events s1) = template_refs (events s) @ rs1" "\<forall>c\<in>set rs1. nxt s \<le> c"
    by blast
  from "4.IH"(2) [OF g refl t init1] obtain rs2 where
    rs2: "template_refs (events s'') = template_refs (events s1) @ rs2" "\<forall>c\<in>set rs2. nxt s1 \<le> c"
    by blast
  have "template_refs (events s'') = template_refs (events s) @ (rs1 @ rs2)"
    using rs1 rs2 by simp
  moreover have "\<forall>c\<in>set (rs1 @ rs2). nxt s \<le> c"
    using rs1(2) rs2(2) frame_nxt [OF f1] by auto
  ultimately show ?case by blast
qed

lemma sub_results_templates:
  assumes "sub_results ev cur src dst ds s = Inr (subs, s')" "initialized s"
  shows "\<exists>rs. template_refs (events s') = template_refs (events s) @ rs \<and> (\<forall>c\<in>set rs. nxt s \<le> c)"
proof -
  from assms(1) have "traverse ev cur src dst [] ds s = Inr ([] @ concat subs, s')"
    unfolding traverse_sub_results by blast
  from generate_traverse_templates(2) [OF this assms(2)] show ?thesis .
qed

lemma touches_heap: "touches r s s' \<Longrightarrow> q \<noteq> r \<Longrightarrow> heap s' ! q = heap s ! q"
  and touches_inst: "touches r s s' \<Longrightarrow> inst s' = inst s"
  and touches_nxt: "touches r s s' \<Longrightarrow> nxt s' = nxt s"
  by (auto simp: touches_def)

lemma amp_step_heap [simp]: "heap (amp_step ev n td s) = heap s"
  by (auto simp: amp_step_def split: option.splits)

text \<open>What rendering leaves in the page object.\<close>

lemma parseContentFile_page:
  assumes "parseContentFile ev r fm c s = Inr (html, s')" "r < nxt s"
  shows "\<exists>md fn. rewrite_references (heap s ! r) c = Inr md \<and>
     getp (normalize_date (assign (heap s ! r) fm)) ''filename'' = Str fn \<and>
     drop 1 (path_extname fn) = ''md'' \<and> html = marked ev md \<and>
     heap s' ! r = extract_excerpt html (normalize_date (assign (heap s ! r) fm))"
  using assms
  by (auto simp: parseContentFile_def Let_def split: jsval.splits sum.splits if_splits)

lemma renderContentFile_page:
  assumes "renderContentFile ev r D fm c s = Inr (td, s')" "r < nxt s"
    and "heap s ! r = page_config0 cfg src n"
  shows "rendered_page ev (baseDestDirectory s) D src cfg (File n fm c) = Inr (heap s' ! r)"
proof -
  from assms(1) obtain pc html s1 logged dd out where
    m: "page_metadata (baseDestDirectory s) D (heap s ! r) = Inr pc"
    and p: "parseContentFile ev r fm c (upd r (\<lambda>_. pc) s) = Inr (html, s1)"
    and s': "s' = emit (WriteFile (path_join [dd, contentPageName]) out)
                   (emit (EnsureDir dd) (emit (ConsoleLog logged)
                      (upd r (setp ''content_html'' (Str html)) s1)))"
    by (auto simp: renderContentFile_def Let_def split: sum.splits prod.splits)
  have r1: "r < nxt (upd r (\<lambda>_. pc) s)" using assms(2) by simp
  from parseContentFile_page [OF p r1] obtain md fn where
    md: "rewrite_references pc c = Inr md"
    and fn: "getp (normalize_date (assign pc fm)) ''filename'' = Str fn"
      "drop 1 (path_extname fn) = ''md''"
    and html: "html = marked ev md"
    and h1: "heap s1 ! r = extract_excerpt html (normalize_date (assign pc fm))"
    using assms(2) by auto
  have n1: "nxt s1 = nxt s"
    using touches_nxt [OF parseContentFile_touches [OF p]] by simp
  have "heap s' ! r = setp ''content_html'' (Str html) (heap s1 ! r)"
    using assms(2) n1 by (simp add: s')
  then show ?thesis
    using m md fn html h1 by (simp add: assms(3) Let_def)
qed

lemma content_loop_rendered:
  assumes "content_loop ev src D cur acc fs s = Inr (pages, s')" "cur < nxt s"
  shows "\<exists>new. pages = acc @ new \<and>
     list_all2 (\<lambda>r f. r < nxt s' \<and>
                  rendered_page ev (baseDestDirectory s) D src (heap s ! cur) f = Inr (heap s' ! r))
       new (filter (\<lambda>f. \<not> isDirectory f) fs)"
  using assms
proof (induction ev src D cur acc fs s arbitrary: pages s' rule: content_loop.induct)
  case (1 ev src D cur acc s)
  then show ?case by simp
next
  case (2 ev src D cur acc n cfg es fs s)
  then show ?case by simp
next
  case (3 ev src D cur acc name fm content fs s)
  define s1 where "s1 = snd (alloc (assign [] (heap s ! cur)) s)"
  define s2 where "s2 = upd (nxt s)
      (\<lambda>pc. setp ''source'' (Str (path_join [src, name])) (setp ''filename'' (Str name) pc)) s1"
  from "3.prems"(1) obtain td s3 where
    r: "renderContentFile ev (nxt s) D fm content s2 = Inr (td, s3)"
    and l: "content_loop ev src D cur (acc @ [nxt s]) fs (amp_step ev name td s3) = Inr (pages, s')"
    by (auto simp: Let_def s1_def s2_def split: sum.splits prod.splits)
  let ?a = "amp_step ev name td s3"
  have t3: "touches (nxt s) s2 s3" by (rule renderContentFile_touches [OF r])
  have ta: "touches (nxt s) s3 ?a" by (rule amp_step_touches)
  have n2: "nxt s2 = Suc (nxt s)" by (simp add: s2_def s1_def)
  have na: "nxt ?a = Suc (nxt s)"
    using touches_nxt [OF t3] touches_nxt [OF ta] n2 by simp
  have ia: "inst ?a = inst s"
    using touches_inst [OF t3] touches_inst [OF ta] by (simp add: s2_def s1_def)
  have bd: "baseDestDirectory ?a = baseDestDirectory s"
    by (rule inst_baseDest [OF ia])
  have neq: "cur \<noteq> nxt s" using "3.prems"(2) by simp
  have ca: "heap ?a ! cur = heap s ! cur"
    using touches_heap [OF t3 neq] "3.prems"(2) neq by (simp add: s2_def s1_def)
  have h2: "heap s2 ! nxt s = page_config0 (heap s ! cur) src name"
    by (simp add: s2_def s1_def page_config0_def)
  have lt2: "nxt s < nxt s2" by (simp add: n2)
  have "inst s2 = inst s" by (simp add: s2_def s1_def)
  then have bd2: "baseDestDirectory s2 = baseDestDirectory s" by (rule inst_baseDest)
  have ha: "heap ?a = heap s3" by simp
  have pg: "rendered_page ev (baseDestDirectory s) D src (heap s ! cur) (File name fm content)
            = Inr (heap ?a ! nxt s)"
    using renderContentFile_page [OF r lt2 h2] unfolding bd2 ha .
  have cur_a: "cur < nxt ?a" using "3.prems"(2) na by simp
  have "\<exists>new. pages = (acc @ [nxt s]) @ new \<and>
     list_all2 (\<lambda>r f. r < nxt s' \<and>
                  rendered_page ev (baseDestDirectory ?a) D src (heap ?a ! cur) f = Inr (heap s' ! r))
       new (filter (\<lambda>f. \<not> isDirectory f) fs)"
    using "3.IH" [OF _ _ _ r _ l cur_a] by (simp add: s1_def s2_def alloc_def del: rendered_page.simps)
  then obtain new where
    new: "pages = (acc @ [nxt s]) @ new"
    and all: "list_all2 (\<lambda>r f. r < nxt s' \<and>
                  rendered_page ev (baseDestDirectory ?a) D src (heap ?a ! cur) f = Inr (heap s' ! r))
       new (filter (\<lambda>f. \<not> isDirectory f) fs)"
    by blast
  from content_loop_frame [OF l] have fa: "frame ?a s'" by simp
  have keep: "heap s' ! nxt s = heap ?a ! nxt s"
    by (rule frame_heap [OF fa]) (simp add: na)
  have lt': "nxt s < nxt s'"
    using frame_nxt [OF fa] na by simp
  have "list_all2 (\<lambda>r f. r < nxt s' \<and>
                  rendered_page ev (baseDestDirectory s) D src (heap s ! cur) f = Inr (heap s' ! r))
       (nxt s # new) (filter (\<lambda>f. \<not> isDirectory f) (File name fm content # fs))"
    using all pg keep lt' unfolding bd ca by (simp del: rendered_page.simps)
  with new show ?case by (intro exI [of _ "nxt s # new"]) simp
qed

section \<open>Traversal order and configuration inheritance\<close>

lemma run_small:
  "case generate ev0 0 ''s'' ''d'' [] tree_small st0 of Inl e \<Rightarrow> False | Inr (ps, s) \<Rightarrow> ps = [2, 4]"
  by code_simp

lemma run_small_Inr: "\<exists>s'. generate ev0 0 ''s'' ''d'' [] tree_small st0 = Inr ([2, 4], s')"
  using run_small by (auto split: sum.splits)

lemma st0_simps [simp]: "nxt st0 = 1" "events st0 = []" "\<not> initialized st0" "heap st0 ! 0 = []"
  by (simp_all add: st0_def nxt_def)

lemma tree_small_dir: "Dir ''b'' [] [File ''a.md'' [] ''y''] \<in> set tree_small"
  by (simp add: tree_small_def)

lemma run_siblings:
  "case generate ev0 0 ''s'' ''d'' [] tree_siblings st_site of Inl e \<Rightarrow> False
   | Inr (ps, s) \<Rightarrow> ps = [2, 3, 5, 7] \<and> template_refs (events s) = [4, 6, 1] \<and>
       map (\<lambda>r. getp (heap s ! r) ''filename'') ps = [Str ''a.md'', Str ''b.md'', Str ''c.md'', Str ''e.md''] \<and>
       map (\<lambda>r. getp (heap s ! r) ''path'') ps = [Str ''a'', Str ''b'', Str ''p/c'', Str ''q/e''] \<and>
       heap s ! 0 = [(''title'', Str ''T'')] \<and> heap s ! 1 = [(''title'', Str ''T'')] \<and>
       heap s ! 4 = [(''title'', Str ''T''), (''layout'', Str ''wide'')] \<and>
       heap s ! 6 = [(''title'', Str ''T'')]"
  by code_simp

lemma run_siblings_Inr:
  obtains s' where "generate ev0 0 ''s'' ''d'' [] tree_siblings st_site = Inr ([2, 3, 5, 7], s')"
    "template_refs (events s') = [4, 6, 1]"
    "map (\<lambda>r. getp (heap s' ! r) ''filename'') [2, 3, 5, 7]
       = [Str ''a.md'', Str ''b.md'', Str ''c.md'', Str ''e.md'']"
    "heap s' ! 0 = [(''title'', Str ''T'')]" "heap s' ! 1 = [(''title'', Str ''T'')]"
    "heap s' ! 4 = [(''title'', Str ''T''), (''layout'', Str ''wide'')]"
    "heap s' ! 6 = [(''title'', Str ''T'')]"
  using run_siblings by (auto split: sum.splits)

lemma st_site_simps [simp]: "nxt st_site = 1" "events st_site = []" "\<not> initialized st_site"
  "heap st_site ! 0 = [(''title'', Str ''T'')]"
  by (simp_all add: st_site_def st0_def nxt_def)

text \<open>
  Claim C1.  When a call of \<open>generate\<close> returns (and the template generator exists, as it does
  once the instance is initialised), the run is: the directory's content files are processed
  (\<open>processContentFiles\<close>, from the state after the assets, giving \<open>own\<close>), then the recursive
  calls on the subdirectories run one after the other (\<open>sub_results\<close>, giving \<open>subs\<close>), and the
  call of the template generator for the directory is the one effect after that: the final
  state is the state after the last recursive call with that one event added.  The event
  carries the returned page list, which is \<open>own\<close> followed by all of \<open>subs\<close>.  Among the effects
  before it (\<open>evs\<close>) there is no call of the template generator for this directory's
  configuration object \<open>nxt s\<close>: every template call in \<open>evs\<close> is for an object allocated later,
  that is for a subdirectory.
\<close>

theorem template_pages_rendered_after_subtree:
  assumes "generate ev b src dst cfg files s = Inr (pages, s')"
    and "initialized s \<longrightarrow> templateGenerator s"
  shows "\<exists>D own s4 subs s5 evs.
     overridden_dest (baseDestDirectory (enter b src dst cfg files s)) dst
       (''index.md'' \<in> set (map node_name files)) (heap (enter b src dst cfg files s) ! nxt s) = Inr D \<and>
     processContentFiles ev src files D (nxt s)
       (processAssetFiles src files D (emit (EnsureDir D) (enter b src dst cfg files s))) = Inr (own, s4) \<and>
     length own = length (filter is_content files) \<and>
     sub_results ev (nxt s) src dst (filter isDirectory files) s4 = Inr (subs, s5) \<and>
     length subs = length (filter isDirectory files) \<and>
     pages = own @ concat subs \<and>
     s' = emit (TemplateGenerate src dst (nxt s) pages) s5 \<and>
     events s5 = events s @ evs \<and>
     (\<forall>c\<in>set (template_refs evs). nxt s < c)"
proof -
  let ?e = "enter b src dst cfg files s"
  let ?s3 = "\<lambda>D. processAssetFiles src files D (emit (EnsureDir D) ?e)"
  from assms(1) obtain D own s4 s5 where
    D: "overridden_dest (baseDestDirectory ?e) dst
       (''index.md'' \<in> set (map node_name files)) (heap ?e ! nxt s) = Inr D"
    and own: "processContentFiles ev src files D (nxt s) (?s3 D) = Inr (own, s4)"
    and tr: "traverse ev (nxt s) src dst own (filter isDirectory files) s4 = Inr (pages, s5)"
    and s': "s' = (if templateGenerator s5 then emit (TemplateGenerate src dst (nxt s) pages) s5 else s5)"
    by (rule generate_InrE)
  from tr obtain subs where
    subs: "sub_results ev (nxt s) src dst (filter isDirectory files) s4 = Inr (subs, s5)"
    and pages: "pages = own @ concat subs"
    unfolding traverse_sub_results by blast
  from processContentFiles_frame [OF own]
  have f4: "frame (?s3 D) s4" and i4: "inst s4 = inst (initialize b src dst s)"
    by simp_all
  have init4: "initialized s4"
    using inst_initialized [OF i4] by simp
  from sub_results_frame [OF subs init4]
  have f5: "frame s4 s5" and i5: "inst s5 = inst s4"
    by simp_all
  have tg: "templateGenerator s5"
    using inst_templateGenerator [OF i5] inst_templateGenerator [OF i4] assms(2) by simp
  have fs4: "frame s s4"
    by (rule frame_trans [OF enter_simps(7) frame_trans [OF frame_trans [OF frame_emit processAssetFiles_simps(1)] f4]])
  from frame_events [OF frame_trans [OF fs4 f5]] obtain evs where evs: "events s5 = events s @ evs"
    by blast
  have n4: "nxt s < nxt s4"
    using frame_nxt [OF f4] by simp
  have t4: "template_refs (events s4) = template_refs (events s)"
    using processContentFiles_templates [OF own] by simp
  from sub_results_templates [OF subs init4] obtain rs where
    rs: "template_refs (events s5) = template_refs (events s4) @ rs" "\<forall>c\<in>set rs. nxt s4 \<le> c"
    by blast
  have "template_refs evs = rs"
    using rs(1) t4 evs by simp
  with rs(2) n4 have late: "\<forall>c\<in>set (template_refs evs). nxt s < c"
    by auto
  from D own processContentFiles_pages(2) [OF own] subs sub_results_length [OF subs] pages
    tg s' evs late
  show ?thesis by (intro exI [of _ D] exI [of _ own] exI [of _ s4] exI [of _ subs]
        exI [of _ s5] exI [of _ evs]) simp
qed

theorem template_pages_rendered_after_subtree_witness:
  "\<exists>s' D own s4 subs s5 evs.
     generate ev0 0 ''s'' ''d'' [] tree_siblings st_site = Inr ([2, 3, 5, 7], s') \<and>
     template_refs (events s') = [4, 6, 1] \<and>
     processContentFiles ev0 ''s'' tree_siblings D (nxt st_site)
       (processAssetFiles ''s'' tree_siblings D
          (emit (EnsureDir D) (enter 0 ''s'' ''d'' [] tree_siblings st_site))) = Inr (own, s4) \<and>
     length own = length (filter is_content tree_siblings) \<and>
     sub_results ev0 (nxt st_site) ''s'' ''d'' (filter isDirectory tree_siblings) s4 = Inr (subs, s5) \<and>
     length subs = length (filter isDirectory tree_siblings) \<and>
     [2, 3, 5, 7] = own @ concat subs \<and>
     s' = emit (TemplateGenerate ''s'' ''d'' (nxt st_site) [2, 3, 5, 7]) s5 \<and>
     events s5 = events st_site @ evs \<and>
     (\<forall>c\<in>set (template_refs evs). nxt st_site < c)"
proof -
  obtain s' where g: "generate ev0 0 ''s'' ''d'' [] tree_siblings st_site = Inr ([2, 3, 5, 7], s')"
    and t: "template_refs (events s') = [4, 6, 1]"
    by (rule run_siblings_Inr)
  have w: "initialized st_site \<longrightarrow> templateGenerator st_site"
    by simp
  from template_pages_rendered_after_subtree [OF g w] obtain D own s4 subs s5 evs where
    "processContentFiles ev0 ''s'' tree_siblings D (nxt st_site)
       (processAssetFiles ''s'' tree_siblings D
          (emit (EnsureDir D) (enter 0 ''s'' ''d'' [] tree_siblings st_site))) = Inr (own, s4)"
    "length own = length (filter is_content tree_siblings)"
    "sub_results ev0 (nxt st_site) ''s'' ''d'' (filter isDirectory tree_siblings) s4 = Inr (subs, s5)"
    "length subs = length (filter isDirectory tree_siblings)"
    "[2, 3, 5, 7] = own @ concat subs"
    "s' = emit (TemplateGenerate ''s'' ''d'' (nxt st_site) [2, 3, 5, 7]) s5"
    "events s5 = events st_site @ evs"
    "\<forall>c\<in>set (template_refs evs). nxt st_site < c"
    by (elim exE conjE)
  with g t show ?thesis by blast
qed

text \<open>
  Claim C2.  The page list \<open>generate\<close> returns is the list \<open>processContentFiles\<close> returns
  for the directory followed by the page lists of the recursive calls on the subdirectories
  (\<open>sub_results\<close>, one per subdirectory in listing order), concatenated.  The directory's own
  pages are the objects allocated by \<open>processContentFiles\<close>, in allocation order, one per
  content file, and the \<open>i\<close>-th of them is the page of the \<open>i\<close>-th content file of the listing:
  in the final store it holds what \<open>rendered_page\<close> computes from that file and the
  directory's configuration.  The result is a function of the listing, so it is deterministic.
\<close>

theorem page_list_own_then_subdirectories:
  assumes "generate ev b src dst cfg files s = Inr (pages, s')"
  shows "\<exists>D s3 own s4 subs s5.
     overridden_dest (baseDestDirectory (enter b src dst cfg files s)) dst
       (''index.md'' \<in> set (map node_name files)) (heap (enter b src dst cfg files s) ! nxt s) = Inr D \<and>
     s3 = processAssetFiles src files D (emit (EnsureDir D) (enter b src dst cfg files s)) \<and>
     processContentFiles ev src files D (nxt s) s3 = Inr (own, s4) \<and>
     own = [nxt s3 ..< nxt s4] \<and> length own = length (filter is_content files) \<and>
     list_all2 (\<lambda>r f. rendered_page ev (baseDestDirectory s') D src (heap s' ! nxt s) f
                        = Inr (heap s' ! r))
       own (filter is_content files) \<and>
     sub_results ev (nxt s) src dst (filter isDirectory files) s4 = Inr (subs, s5) \<and>
     length subs = length (filter isDirectory files) \<and>
     pages = own @ concat subs"
proof -
  let ?e = "enter b src dst cfg files s"
  from assms(1) obtain D own s4 s5 where
    D: "overridden_dest (baseDestDirectory ?e) dst
       (''index.md'' \<in> set (map node_name files)) (heap ?e ! nxt s) = Inr D"
    and own: "processContentFiles ev src files D (nxt s)
       (processAssetFiles src files D (emit (EnsureDir D) ?e)) = Inr (own, s4)"
    and tr: "traverse ev (nxt s) src dst own (filter isDirectory files) s4 = Inr (pages, s5)"
    and s': "s' = (if templateGenerator s5 then emit (TemplateGenerate src dst (nxt s) pages) s5 else s5)"
    by (rule generate_InrE)
  define s3 where "s3 = processAssetFiles src files D (emit (EnsureDir D) ?e)"
  note own3 = own [folded s3_def]
  from tr obtain subs where
    subs: "sub_results ev (nxt s) src dst (filter isDirectory files) s4 = Inr (subs, s5)"
    and pages: "pages = own @ concat subs"
    unfolding traverse_sub_results by blast
  have h': "heap s' = heap s5" "baseDestDirectory s' = baseDestDirectory s5"
    by (simp_all add: s' emit_def)
  from processContentFiles_frame [OF own3]
  have f4: "frame s3 s4" and i4: "inst s4 = inst s3"
    by simp_all
  have i3: "inst s3 = inst (initialize b src dst s)"
    by (simp add: s3_def)
  have init4: "initialized s4"
    using inst_initialized [OF i4] inst_initialized [OF i3] by simp
  from sub_results_frame [OF subs init4]
  have f5: "frame s4 s5" and i5: "inst s5 = inst s4"
    by simp_all
  have n3: "nxt s3 = Suc (nxt s)" by (simp add: s3_def)
  have bd: "baseDestDirectory s' = baseDestDirectory s3"
    using inst_baseDest [OF i5] inst_baseDest [OF i4] by (simp add: h')
  have cur: "heap s' ! nxt s = heap s3 ! nxt s"
    using frame_heap [OF frame_trans [OF f4 f5], of "nxt s"] by (simp add: h' n3)
  have lt: "nxt s < nxt s3" by (simp add: n3)
  from content_loop_rendered [OF own3 [unfolded processContentFiles_def] lt] obtain new where
    new: "own = [] @ new"
    and all: "list_all2 (\<lambda>r f. r < nxt s4 \<and>
                  rendered_page ev (baseDestDirectory s3) D src (heap s3 ! nxt s) f = Inr (heap s4 ! r))
       new (filter (\<lambda>f. \<not> isDirectory f) (filter is_content files))"
    by blast
  have all': "list_all2 (\<lambda>r f. rendered_page ev (baseDestDirectory s') D src (heap s' ! nxt s) f
                        = Inr (heap s' ! r)) own (filter is_content files)"
  proof -
    have "list_all2 (\<lambda>r f. r < nxt s4 \<and>
                  rendered_page ev (baseDestDirectory s3) D src (heap s3 ! nxt s) f = Inr (heap s4 ! r))
       own (filter is_content files)"
      using all new by (simp add: is_content_not_dir del: rendered_page.simps)
    then show ?thesis
    proof (rule list_all2_mono)
      fix r f
      assume "r < nxt s4 \<and>
        rendered_page ev (baseDestDirectory s3) D src (heap s3 ! nxt s) f = Inr (heap s4 ! r)"
      then show "rendered_page ev (baseDestDirectory s') D src (heap s' ! nxt s) f = Inr (heap s' ! r)"
        using frame_heap [OF f5, of r] cur bd by (simp add: h' del: rendered_page.simps)
    qed
  qed
  from D own3 processContentFiles_pages [OF own3] all' subs sub_results_length [OF subs] pages
  show ?thesis
    by (intro exI [of _ D] exI [of _ s3] exI [of _ own] exI [of _ s4] exI [of _ subs]
        exI [of _ s5]) (simp add: s3_def del: rendered_page.simps)
qed

theorem page_list_own_then_subdirectories_witness:
  "\<exists>s' D s3 own s4 subs s5.
     generate ev0 0 ''s'' ''d'' [] tree_siblings st_site = Inr ([2, 3, 5, 7], s') \<and>
     map (\<lambda>r. getp (heap s' ! r) ''filename'') [2, 3, 5, 7]
       = [Str ''a.md'', Str ''b.md'', Str ''c.md'', Str ''e.md''] \<and>
     processContentFiles ev0 ''s'' tree_siblings D (nxt st_site) s3 = Inr (own, s4) \<and>
     own = [nxt s3 ..< nxt s4] \<and> length own = length (filter is_content tree_siblings) \<and>
     list_all2 (\<lambda>r f. rendered_page ev0 (baseDestDirectory s') D ''s'' (heap s' ! nxt st_site) f
                        = Inr (heap s' ! r))
       own (filter is_content tree_siblings) \<and>
     sub_results ev0 (nxt st_site) ''s'' ''d'' (filter isDirectory tree_siblings) s4 = Inr (subs, s5) \<and>
     length subs = length (filter isDirectory tree_siblings) \<and>
     [2, 3, 5, 7] = own @ concat subs"
proof -
  obtain s' where g: "generate ev0 0 ''s'' ''d'' [] tree_siblings st_site = Inr ([2, 3, 5, 7], s')"
    and f: "map (\<lambda>r. getp (heap s' ! r) ''filename'') [2, 3, 5, 7]
       = [Str ''a.md'', Str ''b.md'', Str ''c.md'', Str ''e.md'']"
    by (rule run_siblings_Inr)
  from page_list_own_then_subdirectories [OF g] obtain D s3 own s4 subs s5 where w:
    "processContentFiles ev0 ''s'' tree_siblings D (nxt st_site) s3 = Inr (own, s4)"
    "own = [nxt s3 ..< nxt s4]" "length own = length (filter is_content tree_siblings)"
    "list_all2 (\<lambda>r f. rendered_page ev0 (baseDestDirectory s') D ''s'' (heap s' ! nxt st_site) f
                        = Inr (heap s' ! r))
       own (filter is_content tree_siblings)"
    "sub_results ev0 (nxt st_site) ''s'' ''d'' (filter isDirectory tree_siblings) s4 = Inr (subs, s5)"
    "length subs = length (filter isDirectory tree_siblings)"
    "[2, 3, 5, 7] = own @ concat subs"
    by (elim exE conjE)
  show ?thesis
    by (intro exI [of _ s'] exI [of _ D] exI [of _ s3] exI [of _ own] exI [of _ s4]
        exI [of _ subs] exI [of _ s5] conjI) (fact g f w)+
qed



section \<open>The errors of a run\<close>

lemma path_join_v_error: "path_join_v args = Inl e \<Longrightarrow> e = TypeError"
  by (simp add: path_join_v_def split: option.splits)

lemma prepend_path_error: "prepend_path pc m g = Inl e \<Longrightarrow> e = TypeError"
  by (auto simp: prepend_path_def dest: path_join_v_error split: sum.splits jsval.splits)

lemma replace_fn_error: "replace_fn re (prepend_path pc) c = Inl e \<Longrightarrow> e = TypeError"
  by (auto simp: replace_fn_def dest: prepend_path_error split: option.splits sum.splits)

lemma replace_all_fn_error:
  "replace_all_fn re f b k c = Inl e \<Longrightarrow> f = prepend_path pc \<Longrightarrow> e = TypeError"
proof (induction re f b k c arbitrary: e rule: replace_all_fn.induct)
  case (1 re f b k)
  then show ?case
    by (auto dest: prepend_path_error split: if_splits option.splits)
next
  case (2 re f b k c cs)
  show ?case
  proof (cases "0 < k")
    case True
    with "2.prems" "2.IH"(1) show ?thesis by simp
  next
    case k: False
    show ?thesis
    proof (cases "rmatch re b (c # cs) mstate0")
      case None
      with k "2.prems" "2.IH"(2) [OF k None] show ?thesis
        by (auto split: sum.splits)
    next
      case (Some r)
      obtain rest st where r: "r = (rest, st)" by (cases r)
      show ?thesis
      proof (cases "f (take (length (c # cs) - length rest) (c # cs)) (caps st)")
        case (Inl e')
        with k Some r "2.prems" show ?thesis
          by (auto simp: Let_def dest: prepend_path_error)
      next
        case (Inr u)
        with k Some r "2.prems" "2.IH"(3) [OF k Some r [symmetric] refl Inr] show ?thesis
          by (auto simp: Let_def split: sum.splits)
      qed
    qed
  qed
qed

lemma rewrite_references_error:
  assumes "rewrite_references pc c = Inl e"
  shows "e = TypeError"
proof (cases "replace_fn re_md_image (prepend_path pc) c")
  case (Inl e')
  with assms have "e' = e" by (simp add: rewrite_references_def)
  with Inl show ?thesis by (auto dest: replace_fn_error)
next
  case (Inr c')
  with assms have "replace_all_fn re_html_attr (prepend_path pc) True 0 c' = Inl e"
    by (simp add: rewrite_references_def)
  then show ?thesis by (rule replace_all_fn_error) (rule refl)
qed

lemma page_metadata_error: "page_metadata bd D pc = Inl e \<Longrightarrow> e = TypeError"
  by (auto simp: page_metadata_def derive_date_slug_def derive_year_def resolve_path_def Let_def
      dest: path_join_v_error split: sum.splits if_splits jsval.splits option.splits)

lemma page_metadata_filename:
  "page_metadata bd D pc = Inr pc' \<Longrightarrow> getp pc' ''filename'' = getp pc ''filename''"
  by (auto simp: page_metadata_def derive_date_slug_def derive_year_def resolve_path_def Let_def
      permalink_alias_def default_title_def getp_setp renderAmpPages_def
      split: sum.splits if_splits jsval.splits option.splits)


lemma getp_normalize_date: "k \<noteq> ''date'' \<Longrightarrow> getp (normalize_date pc) k = getp pc k"
  by (simp add: normalize_date_def getp_setp split: jsval.splits)

lemma parseContentFile_error:
  assumes "parseContentFile ev r fm c s = Inl e" "getp (heap s ! r) ''filename'' = Str n"
    "drop 1 (path_extname n) = ''md''" "map_of fm ''filename'' = None" "r < nxt s"
  shows "e = TypeError"
proof -
  have "getp (heap (upd r (\<lambda>pc. normalize_date (assign pc fm)) (emit (ReadFile x) s)) ! r) ''filename''
        = Str n" for x
    using assms(2,4,5) by (simp add: getp_normalize_date getp_assign)
  with assms(1,3) show ?thesis
    by (auto simp: parseContentFile_def Let_def dest: rewrite_references_error
        split: jsval.splits sum.splits if_splits)
qed

lemma renderContentFile_error:
  assumes "renderContentFile ev r D fm c s = Inl e" "getp (heap s ! r) ''filename'' = Str n"
    "drop 1 (path_extname n) = ''md''" "map_of fm ''filename'' = None" "r < nxt s"
  shows "e = TypeError"
proof (cases "page_metadata (baseDestDirectory s) D (heap s ! r)")
  case (Inl e')
  with assms(1) have "e' = e" by (simp add: renderContentFile_def)
  with Inl show ?thesis by (auto dest: page_metadata_error)
next
  case (Inr pc)
  have fn: "getp (heap (upd r (\<lambda>_. pc) s) ! r) ''filename'' = Str n"
    using page_metadata_filename [OF Inr] assms(2,5) by simp
  show ?thesis
  proof (cases "parseContentFile ev r fm c (upd r (\<lambda>_. pc) s)")
    case (Inl e')
    with assms(1) Inr have "e' = e" by (simp add: renderContentFile_def)
    with Inl parseContentFile_error [OF _ fn assms(3,4)] assms(5) show ?thesis by simp
  next
    case (Inr res)
    with assms(1) \<open>page_metadata (baseDestDirectory s) D (heap s ! r) = Inr pc\<close> show ?thesis
      by (auto simp: renderContentFile_def Let_def dest: path_join_v_error
          split: prod.splits sum.splits)
  qed
qed

lemma content_loop_error:
  "content_loop ev src D cur acc fs s = Inl e \<Longrightarrow> list_all keeps_filename fs \<Longrightarrow>
   list_all is_content fs \<Longrightarrow> e = TypeError"
proof (induction ev src D cur acc fs s rule: content_loop.induct)
  case (1 ev src D cur acc s)
  then show ?case by simp
next
  case (2 ev src D cur acc n cfg es fs s)
  then show ?case by (simp add: is_content_def)
next
  case (3 ev src D cur acc n fm c fs s)
  define s1 where "s1 = snd (alloc (assign [] (heap s ! cur)) s)"
  define s2 where "s2 = upd (nxt s)
      (\<lambda>pc. setp ''source'' (Str (path_join [src, n])) (setp ''filename'' (Str n) pc)) s1"
  have fn: "getp (heap s2 ! nxt s) ''filename'' = Str n"
    by (simp add: s2_def s1_def getp_setp)
  have md: "drop 1 (path_extname n) = ''md''"
    using "3.prems"(3) by (simp add: is_content_def contentExtensionsToInclude_def)
  have fm: "map_of fm ''filename'' = None"
    using "3.prems"(2) by simp
  have lt: "nxt s < nxt s2"
    by (simp add: s2_def s1_def)
  show ?case
  proof (cases "renderContentFile ev (nxt s) D fm c s2")
    case (Inl e0)
    with "3.prems"(1) have "e0 = e" by (simp add: s1_def s2_def)
    with Inl renderContentFile_error [OF _ fn md fm lt] show ?thesis by simp
  next
    case (Inr res)
    obtain td s3 where res: "res = (td, s3)" by (cases res)
    note r = Inr [unfolded res]
    from "3.prems"(1) r
    have l: "content_loop ev src D cur (acc @ [nxt s]) fs (amp_step ev n td s3) = Inl e"
      by (simp add: s1_def s2_def)
    from "3.IH" [OF _ _ _ r _ l] "3.prems"(2,3) show ?thesis
      by (simp add: s1_def s2_def alloc_def)
  qed
qed

lemma processContentFiles_error:
  assumes "processContentFiles ev src files D cur s = Inl e" "list_all keeps_filename files"
  shows "e = TypeError"
proof -
  have "list_all keeps_filename (filter is_content files)" "list_all is_content (filter is_content files)"
    using assms(2) by (simp_all add: list_all_iff)
  with assms(1) show ?thesis
    unfolding processContentFiles_def by (rule content_loop_error)
qed

lemma overridden_dest_error: "overridden_dest bd dst p dc = Inl e \<Longrightarrow> e = TypeError"
  by (auto simp: overridden_dest_def Let_def dest: path_join_v_error split: if_splits jsval.splits)

lemma generate_InlE:
  assumes "generate ev b src dst cfg files s = Inl e"
  obtains
    (dest) "overridden_dest (baseDestDirectory (enter b src dst cfg files s)) dst
       (''index.md'' \<in> set (map node_name files)) (heap (enter b src dst cfg files s) ! nxt s) = Inl e"
  | (own) D where "processContentFiles ev src files D (nxt s)
       (processAssetFiles src files D (emit (EnsureDir D) (enter b src dst cfg files s))) = Inl e"
  | (sub) D own s4 where
    "overridden_dest (baseDestDirectory (enter b src dst cfg files s)) dst
       (''index.md'' \<in> set (map node_name files)) (heap (enter b src dst cfg files s) ! nxt s) = Inr D"
    "processContentFiles ev src files D (nxt s)
       (processAssetFiles src files D (emit (EnsureDir D) (enter b src dst cfg files s))) = Inr (own, s4)"
    "traverse ev (nxt s) src dst own (filter isDirectory files) s4 = Inl e"
  using assms
  by (auto simp: generate.simps Let_def enter_def split: sum.splits)

text \<open>Unless a front matter declares \<^verbatim>\<open>filename\<close>, a run fails with a \<^verbatim>\<open>TypeError\<close> or not at all.\<close>

lemma generate_traverse_error:
  "generate ev b src dst cfg files s = Inl e \<Longrightarrow> list_all keeps_filename files \<Longrightarrow> e = TypeError"
  "traverse ev cur src dst acc ds s = Inl e' \<Longrightarrow> list_all keeps_filename ds \<Longrightarrow> e' = TypeError"
proof (induction ev b src dst cfg files s and ev cur src dst acc ds s
       arbitrary: e and e' rule: generate_traverse.induct)
  case (1 ev b src dst cfg files s)
  let ?e = "enter b src dst cfg files s"
  from "1.prems"(1) show ?case
  proof (cases rule: generate_InlE)
    case dest
    then show ?thesis by (rule overridden_dest_error)
  next
    case (own D)
    then show ?thesis using "1.prems"(2) by (rule processContentFiles_error)
  next
    case (sub D own s4)
    have k: "list_all keeps_filename (filter isDirectory files)"
      using "1.prems"(2) by (simp add: list_all_iff)
    show ?thesis
      using "1.IH" [of "initialize b src dst s" "''index.md'' \<in> set (map node_name files)"
        "alloc (directory_config (heap s ! b) cfg (''index.md'' \<in> set (map node_name files)) dst)
           (initialize b src dst s)" "nxt s" ?e D "emit (EnsureDir D) ?e"
        "processAssetFiles src files D (emit (EnsureDir D) ?e)" "(own, s4)" own s4 e]
        sub k
      by (simp add: enter_def alloc_def nxt_def)
  qed
next
  case (2 ev cur src dst acc s)
  then show ?case by simp
next
  case (3 ev cur src dst acc n fm body ds s)
  then show ?case by simp
next
  case (4 ev cur src dst acc n cfg files ds s)
  show ?case
  proof (cases "generate ev cur (path_join [src, n]) (path_join [dst, n]) cfg files s")
    case (Inl e0)
    with "4.prems"(1) have "e0 = e'" by simp
    with Inl "4.IH"(1) "4.prems"(2) show ?thesis by simp
  next
    case (Inr res)
    obtain sub s1 where res: "res = (sub, s1)" by (cases res)
    from "4.prems"(1) Inr res have t: "traverse ev cur src dst (acc @ sub) ds s1 = Inl e'"
      by simp
    from "4.IH"(2) [OF Inr [unfolded res] refl t] "4.prems"(2) show ?thesis by simp
  qed
qed

lemma is_content_md: "is_content f \<Longrightarrow> drop 1 (path_extname (node_name f)) = ''md''"
  by (simp add: is_content_def contentExtensionsToInclude_def)

lemma asset_content_disjoint: "\<not> (is_asset f \<and> is_content f)"
  by (auto simp: is_asset_def is_content_def contentExtensionsToInclude_def assetIgnoreExtensions_def)




section \<open>The AMP path and the rewriting of references\<close>

text \<open>
  Claim C8.  The code joins \<^verbatim>\<open>path\<close> and \<^verbatim>\<open>amp.html\<close> with no separator (line 205): the page
  of \<^verbatim>\<open>c.md\<close>, written to \<^verbatim>\<open>/dist/c/index.html\<close>, gets \<^verbatim>\<open>path_amp = camp.html\<close>, the page
  of \<^verbatim>\<open>b/a.md\<close> gets \<^verbatim>\<open>b/aamp.html\<close>.
\<close>

theorem path_amp_has_no_separator:
  "case generate ev0 0 ''/src'' ''/dist'' [] tree_small st0 of
     Inl e \<Rightarrow> False
   | Inr (ps, s) \<Rightarrow>
       ps = [2, 4] \<and>
       map (\<lambda>p. getp (heap s ! p) ''filename'') ps = [Str ''c.md'', Str ''a.md''] \<and>
       map (\<lambda>p. getp (heap s ! p) ''path'') ps = [Str ''c'', Str ''b/a''] \<and>
       map (\<lambda>p. getp (heap s ! p) ''path_amp'') ps = [Str ''camp.html'', Str ''b/aamp.html''] \<and>
       written_files (events s) = [''/dist/c/index.html'', ''/dist/b/a/index.html'']"
  by code_simp

text \<open>
  Claim C9.  The callback of the rewrites replaces the first occurrence of the file name in
  the matched text (lines 309-312), and the pattern's \<^verbatim>\<open>.+\<close> is greedy.  The example of the
  source's comment is rewritten; an image whose alternative text contains its file name
  keeps its target and has the alternative text changed; of two images on a line the last
  one is rewritten and the first is not.  The bracket of the second pattern is a character
  class, so a \<^verbatim>\<open>class\<close> attribute is rewritten as well.
\<close>

theorem image_reference_rewrites:
  "rewrite_references [(''path'', Str ''my-most'')] ''![Smile](smile.png)''
     = Inr ''![Smile](/my-most/smile.png)'' \<and>
   rewrite_references [(''path'', Str ''my-most'')] ''![smile.png](smile.png)''
     = Inr ''![/my-most/smile.png](smile.png)'' \<and>
   rewrite_references [(''path'', Str ''my-most'')] ''![A](a.png) and ![B](b.png)''
     = Inr ''![A](a.png) and ![B](/my-most/b.png)'' \<and>
   rewrite_references [(''path'', Str ''my-most'')] (''<div class='' @ [CHR 0x22] @ ''wide'' @ [CHR 0x22] @ ''>'')
     = Inr (''<div class='' @ [CHR 0x22] @ ''/my-most/wide'' @ [CHR 0x22] @ ''>'')"
  by code_simp

section \<open>AMP failures\<close>

text \<open>Two runs from states that differ in the error log only stay so, whatever the AMP generators do.\<close>

lemma same_run_simps [simp]:
  "same_run (Inl e) r' = (r' = Inl e)"
  "same_run (Inr (x, s)) (Inr (x', s')) = (x = x' \<and> sim s s')"
  "same_run (Inr (x, s)) (Inl e') = False"
  by (simp_all add: same_run_def)

lemma same_run_InrE:
  assumes "same_run (Inr (x, s)) r'"
  obtains s' where "r' = Inr (x, s')" "sim s s'"
  using assms by (cases r') (auto simp: same_run_def)

lemma sim_refl [simp]: "sim s s"
  by (simp add: sim_def)

lemma sim_fields:
  assumes "sim s t"
  shows "heap t = heap s" "nxt t = nxt s" "inst t = inst s" "initialized t = initialized s"
    "baseDestDirectory t = baseDestDirectory s" "baseTemplateData t = baseTemplateData s"
    "templateGenerator t = templateGenerator s" "ampGenerator t = ampGenerator s"
    "baseSourceDirectory t = baseSourceDirectory s"
  using assms by (simp_all add: sim_def inst_def nxt_def)

lemma sim_emit [simp]: "sim s t \<Longrightarrow> sim (emit e s) (emit e t)"
  by (simp add: sim_def emit_def inst_def)

lemma sim_emit_error: "sim s t \<Longrightarrow> sim (emit (ConsoleError m) s) t"
  by (simp add: sim_def emit_def inst_def)

lemma sim_upd [simp]: "sim s t \<Longrightarrow> sim (upd r f s) (upd r f t)"
  by (simp add: sim_def upd_def inst_def)

lemma sim_alloc [simp]: "sim s t \<Longrightarrow> sim (snd (alloc ob s)) (snd (alloc ob t))"
  by (simp add: sim_def alloc_def inst_def)

lemma sim_initialize [simp]: "sim s t \<Longrightarrow> sim (initialize b src dst s) (initialize b src dst t)"
  by (auto simp: sim_def initialize_def inst_def)

lemma sim_copy_assets: "sim s t \<Longrightarrow> sim (copy_assets src D fs s) (copy_assets src D fs t)"
  by (induction fs arbitrary: s t) simp_all

lemma sim_processAssetFiles [simp]:
  "sim s t \<Longrightarrow> sim (processAssetFiles src fs D s) (processAssetFiles src fs D t)"
  by (simp add: processAssetFiles_def sim_copy_assets)

lemma sim_parseContentFile:
  assumes "sim s t" "marked ev' = marked ev"
  shows "same_run (parseContentFile ev r fm c s) (parseContentFile ev' r fm c t)"
  using assms
  by (auto simp: parseContentFile_def Let_def upd_def emit_def sim_def inst_def
      split: jsval.splits sum.splits)

lemma sim_renderContentFile:
  assumes "sim s t" "marked ev' = marked ev" "applyTemplate ev' = applyTemplate ev"
  shows "same_run (renderContentFile ev r D fm c s) (renderContentFile ev' r D fm c t)"
proof -
  note e = sim_fields [OF assms(1)]
  show ?thesis
  proof (cases "page_metadata (baseDestDirectory s) D (heap s ! r)")
    case (Inl err)
    then show ?thesis by (simp add: renderContentFile_def e)
  next
    case (Inr pc)
    have p: "same_run (parseContentFile ev r fm c (upd r (\<lambda>_. pc) s))
                      (parseContentFile ev' r fm c (upd r (\<lambda>_. pc) t))"
      by (rule sim_parseContentFile [OF sim_upd [OF assms(1)] assms(2)])
    show ?thesis
    proof (cases "parseContentFile ev r fm c (upd r (\<lambda>_. pc) s)")
      case (Inl err)
      with p Inr show ?thesis by (simp add: renderContentFile_def e)
    next
      case (Inr res)
      obtain html s1 where res: "res = (html, s1)" by (cases res)
      from p obtain t1 where
        pt: "parseContentFile ev' r fm c (upd r (\<lambda>_. pc) t) = Inr (html, t1)" and s1: "sim s1 t1"
        unfolding Inr res by (rule same_run_InrE)
      note e1 = sim_fields [OF sim_upd [OF s1, of r "setp ''content_html'' (Str html)"]]
      show ?thesis
        using \<open>page_metadata (baseDestDirectory s) D (heap s ! r) = Inr pc\<close> Inr res pt s1 assms(3)
        by (auto simp: renderContentFile_def e Let_def e1 upd_simps emit_simps split: sum.splits)
    qed
  qed
qed


lemma sim_amp_step:
  assumes "sim s t"
  shows "sim (amp_step ev n td s) (amp_step ev' n td t)"
  using assms
  by (auto simp: amp_step_def emit_def sim_def inst_def split: option.splits)

lemma sim_content_loop:
  "sim s t \<Longrightarrow> marked ev' = marked ev \<Longrightarrow> applyTemplate ev' = applyTemplate ev \<Longrightarrow>
    same_run (content_loop ev src D cur acc fs s) (content_loop ev' src D cur acc fs t)"
proof (induction ev src D cur acc fs s arbitrary: t rule: content_loop.induct)
  case (1 ev src D cur acc s)
  then show ?case by simp
next
  case (2 ev src D cur acc n cfg es fs s)
  then show ?case by simp
next
  case (3 ev src D cur acc name fm content fs s)
  note e = sim_fields [OF "3.prems"(1)]
  define f where "f = (\<lambda>pc. setp ''source'' (Str (path_join [src, name])) (setp ''filename'' (Str name) pc))"
  define s2 where "s2 = upd (nxt s) f (snd (alloc (assign [] (heap s ! cur)) s))"
  define t2 where "t2 = upd (nxt s) f (snd (alloc (assign [] (heap s ! cur)) t))"
  have s22: "sim s2 t2"
    unfolding s2_def t2_def by (intro sim_upd sim_alloc "3.prems"(1))
  have r: "same_run (renderContentFile ev (nxt s) D fm content s2)
                    (renderContentFile ev' (nxt s) D fm content t2)"
    by (rule sim_renderContentFile [OF s22 "3.prems"(2,3)])
  show ?case
  proof (cases "renderContentFile ev (nxt s) D fm content s2")
    case (Inl err)
    with r show ?thesis by (simp add: e s2_def t2_def f_def)
  next
    case (Inr res)
    obtain td s3 where res: "res = (td, s3)" by (cases res)
    note rs = Inr [unfolded res]
    from r obtain t3 where
      rt: "renderContentFile ev' (nxt s) D fm content t2 = Inr (td, t3)" and s33: "sim s3 t3"
      unfolding rs by (rule same_run_InrE)
    have "same_run (content_loop ev src D cur (acc @ [nxt s]) fs (amp_step ev name td s3))
                   (content_loop ev' src D cur (acc @ [nxt s]) fs (amp_step ev' name td t3))"
      by (rule "3.IH" [OF _ _ _ rs [unfolded s2_def f_def] _ sim_amp_step [OF s33] "3.prems"(2,3)])
         (simp_all add: alloc_def)
    with rs rt show ?thesis by (simp add: e s2_def t2_def f_def)
  qed
qed


lemma sim_processContentFiles:
  "sim s t \<Longrightarrow> marked ev' = marked ev \<Longrightarrow> applyTemplate ev' = applyTemplate ev \<Longrightarrow>
    same_run (processContentFiles ev src files D cur s) (processContentFiles ev' src files D cur t)"
  unfolding processContentFiles_def by (rule sim_content_loop)

lemma sim_enter: "sim s t \<Longrightarrow> sim (enter b src dst cfg files s) (enter b src dst cfg files t)"
  unfolding enter_def by (simp add: sim_fields)

lemma generate_enter:
  "generate ev b src dst cfg files s =
     (case overridden_dest (baseDestDirectory (enter b src dst cfg files s)) dst
             (''index.md'' \<in> set (map node_name files)) (heap (enter b src dst cfg files s) ! nxt s) of
        Inl e \<Rightarrow> Inl e
      | Inr D \<Rightarrow>
          (case processContentFiles ev src files D (nxt s)
                  (processAssetFiles src files D (emit (EnsureDir D) (enter b src dst cfg files s))) of
             Inl e \<Rightarrow> Inl e
           | Inr (own, s4) \<Rightarrow>
               (case traverse ev (nxt s) src dst own (filter isDirectory files) s4 of
                  Inl e \<Rightarrow> Inl e
                | Inr (pages, s5) \<Rightarrow>
                    Inr (pages, if templateGenerator s5
                                then emit (TemplateGenerate src dst (nxt s) pages) s5 else s5))))"
  by (auto simp: generate.simps Let_def enter_def split: sum.splits)

lemma sim_generate_traverse:
  "sim s t \<Longrightarrow> marked ev' = marked ev \<Longrightarrow> applyTemplate ev' = applyTemplate ev \<Longrightarrow>
     same_run (generate ev b src dst cfg files s) (generate ev' b src dst cfg files t)"
  "sim s t \<Longrightarrow> marked ev' = marked ev \<Longrightarrow> applyTemplate ev' = applyTemplate ev \<Longrightarrow>
     same_run (traverse ev cur src dst acc ds s) (traverse ev' cur src dst acc ds t)"
proof (induction ev b src dst cfg files s and ev cur src dst acc ds s
       arbitrary: t and t rule: generate_traverse.induct)
  case (1 ev b src dst cfg files s)
  let ?e = "enter b src dst cfg files s"
  let ?f = "enter b src dst cfg files t"
  note e = sim_fields [OF "1.prems"(1)]
  have ef: "sim ?e ?f" by (rule sim_enter [OF "1.prems"(1)])
  note e1 = sim_fields [OF ef]
  show ?case
  proof (cases "overridden_dest (baseDestDirectory ?e) dst
             (''index.md'' \<in> set (map node_name files)) (heap ?e ! nxt s)")
    case (Inl err)
    then show ?thesis by (simp add: generate_enter e e1)
  next
    case (Inr D)
    let ?s3 = "processAssetFiles src files D (emit (EnsureDir D) ?e)"
    let ?t3 = "processAssetFiles src files D (emit (EnsureDir D) ?f)"
    have s33: "sim ?s3 ?t3" by (intro sim_processAssetFiles sim_emit ef)
    have p: "same_run (processContentFiles ev src files D (nxt s) ?s3)
                      (processContentFiles ev' src files D (nxt s) ?t3)"
      by (rule sim_processContentFiles [OF s33 "1.prems"(2,3)])
    show ?thesis
    proof (cases "processContentFiles ev src files D (nxt s) ?s3")
      case (Inl err)
      with p Inr show ?thesis by (simp add: generate_enter e e1)
    next
      case own: (Inr res)
      obtain own s4 where res: "res = (own, s4)" by (cases res)
      note ps = own [unfolded res]
      from p obtain t4 where
        pt: "processContentFiles ev' src files D (nxt s) ?t3 = Inr (own, t4)" and s44: "sim s4 t4"
        unfolding ps by (rule same_run_InrE)
      have tr: "same_run (traverse ev (nxt s) src dst own (filter isDirectory files) s4)
                         (traverse ev' (nxt s) src dst own (filter isDirectory files) t4)"
        using "1.IH" [of "initialize b src dst s" "''index.md'' \<in> set (map node_name files)"
          "alloc (directory_config (heap s ! b) cfg (''index.md'' \<in> set (map node_name files)) dst)
             (initialize b src dst s)" "nxt s" ?e D "emit (EnsureDir D) ?e" ?s3 "(own, s4)" own s4 t4]
          Inr ps s44 "1.prems"(2,3)
        by (simp add: enter_def alloc_def nxt_def)
      show ?thesis
      proof (cases "traverse ev (nxt s) src dst own (filter isDirectory files) s4")
        case (Inl err)
        with tr Inr ps pt show ?thesis by (simp add: generate_enter e e1)
      next
        case trr: (Inr res5)
        obtain pages s5 where res5: "res5 = (pages, s5)" by (cases res5)
        note ts = trr [unfolded res5]
        from tr obtain t5 where
          tt: "traverse ev' (nxt s) src dst own (filter isDirectory files) t4 = Inr (pages, t5)"
          and s55: "sim s5 t5"
          unfolding ts by (rule same_run_InrE)
        note e5 = sim_fields [OF s55]
        from Inr ps pt ts tt s55 show ?thesis
          by (simp add: generate_enter e e1 e5)
      qed
    qed
  qed
next
  case (2 ev cur src dst acc s)
  then show ?case by simp
next
  case (3 ev cur src dst acc n fm body ds s)
  then show ?case by simp
next
  case (4 ev cur src dst acc n cfg files ds s)
  have g: "same_run (generate ev cur (path_join [src, n]) (path_join [dst, n]) cfg files s)
                    (generate ev' cur (path_join [src, n]) (path_join [dst, n]) cfg files t)"
    by (rule "4.IH"(1) [OF "4.prems"])
  show ?case
  proof (cases "generate ev cur (path_join [src, n]) (path_join [dst, n]) cfg files s")
    case (Inl err)
    with g show ?thesis by simp
  next
    case (Inr res)
    obtain sub s1 where res: "res = (sub, s1)" by (cases res)
    note gs = Inr [unfolded res]
    from g obtain t1 where
      gt: "generate ev' cur (path_join [src, n]) (path_join [dst, n]) cfg files t = Inr (sub, t1)"
      and s11: "sim s1 t1"
      unfolding gs by (rule same_run_InrE)
    from "4.IH"(2) [OF gs refl s11 "4.prems"(2,3)] gs gt show ?thesis by simp
  qed
qed


lemma same_run_outcome: "same_run r r' \<Longrightarrow> outcome r = outcome r'"
  by (auto simp: same_run_def outcome_def sim_def split: sum.splits)

text \<open>Every failed AMP generation is logged once, and nothing else is.\<close>

lemma unlogged_emit:
  "unlogged ev (emit e s) =
     unlogged ev s + (if amp_failed ev e then 1 else 0) - (if is_console_error e then 1 else 0)"
  by (simp add: unlogged_def)

lemma unlogged_simps [simp]:
  "unlogged ev (upd r f s) = unlogged ev s"
  "unlogged ev (snd (alloc ob s)) = unlogged ev s"
  "unlogged ev (enter b src dst cfg files s) = unlogged ev s"
  by (simp_all add: unlogged_def)

lemma unlogged_parseContentFile:
  "parseContentFile ev' r fm c s = Inr (html, s') \<Longrightarrow> unlogged ev s' = unlogged ev s"
  by (auto simp: parseContentFile_def Let_def unlogged_emit split: jsval.splits sum.splits if_splits)

lemma unlogged_renderContentFile:
  "renderContentFile ev' r D fm c s = Inr (td, s') \<Longrightarrow> unlogged ev s' = unlogged ev s"
  by (auto simp: renderContentFile_def Let_def unlogged_emit split: sum.splits prod.splits
      dest!: unlogged_parseContentFile [where ev = ev])

lemma unlogged_amp_step: "unlogged ev (amp_step ev n td s) = unlogged ev s"
  by (auto simp: amp_step_def unlogged_emit split: option.splits)

lemma unlogged_copy_assets: "unlogged ev (copy_assets src D fs s) = unlogged ev s"
  by (induction fs arbitrary: s) (simp_all add: unlogged_emit)

lemma unlogged_processAssetFiles [simp]: "unlogged ev (processAssetFiles src fs D s) = unlogged ev s"
  by (simp add: processAssetFiles_def unlogged_copy_assets)

lemma unlogged_content_loop:
  "content_loop ev src D cur acc fs s = Inr (pages, s') \<Longrightarrow> unlogged ev s' = unlogged ev s"
proof (induction ev src D cur acc fs s arbitrary: pages s' rule: content_loop.induct)
  case (1 ev src D cur acc s)
  then show ?case by simp
next
  case (2 ev src D cur acc n cfg es fs s)
  then show ?case by simp
next
  case (3 ev src D cur acc name fm content fs s)
  define s1 where "s1 = snd (alloc (assign [] (heap s ! cur)) s)"
  define s2 where "s2 = upd (nxt s)
      (\<lambda>pc. setp ''source'' (Str (path_join [src, name])) (setp ''filename'' (Str name) pc)) s1"
  from "3.prems" obtain td s3 where
    r: "renderContentFile ev (nxt s) D fm content s2 = Inr (td, s3)"
    and l: "content_loop ev src D cur (acc @ [nxt s]) fs (amp_step ev name td s3) = Inr (pages, s')"
    by (auto simp: Let_def s1_def s2_def split: sum.splits prod.splits)
  from "3.IH" [OF _ _ _ r _ l]
  have "unlogged ev s' = unlogged ev (amp_step ev name td s3)"
    by (simp add: s1_def s2_def alloc_def)
  with unlogged_renderContentFile [OF r, of ev] show ?case
    by (simp add: unlogged_amp_step s2_def s1_def)
qed

lemma unlogged_generate_traverse:
  "generate ev b src dst cfg files s = Inr (pages, s') \<Longrightarrow> unlogged ev s' = unlogged ev s"
  "traverse ev cur src dst acc ds s = Inr (pages', s'') \<Longrightarrow> unlogged ev s'' = unlogged ev s"
proof (induction ev b src dst cfg files s and ev cur src dst acc ds s
       arbitrary: pages s' and pages' s'' rule: generate_traverse.induct)
  case (1 ev b src dst cfg files s)
  let ?e = "enter b src dst cfg files s"
  from "1.prems" obtain D own s4 s5 where
    D: "overridden_dest (baseDestDirectory ?e) dst
       (''index.md'' \<in> set (map node_name files)) (heap ?e ! nxt s) = Inr D"
    and own: "processContentFiles ev src files D (nxt s)
       (processAssetFiles src files D (emit (EnsureDir D) ?e)) = Inr (own, s4)"
    and tr: "traverse ev (nxt s) src dst own (filter isDirectory files) s4 = Inr (pages, s5)"
    and s': "s' = (if templateGenerator s5 then emit (TemplateGenerate src dst (nxt s) pages) s5 else s5)"
    by (rule generate_InrE)
  have u4: "unlogged ev s4 = unlogged ev s"
    using unlogged_content_loop [OF own [unfolded processContentFiles_def]]
    by (simp add: unlogged_emit)
  have u5: "unlogged ev s5 = unlogged ev s4"
    using "1.IH" [of "initialize b src dst s" "''index.md'' \<in> set (map node_name files)"
        "alloc (directory_config (heap s ! b) cfg (''index.md'' \<in> set (map node_name files)) dst)
           (initialize b src dst s)" "nxt s" ?e D "emit (EnsureDir D) ?e"
        "processAssetFiles src files D (emit (EnsureDir D) ?e)" "(own, s4)" own s4 pages s5]
      D own tr
    by (simp add: enter_def alloc_def nxt_def)
  show ?case unfolding s' using u4 u5 by (simp add: unlogged_emit)
next
  case (2 ev cur src dst acc s)
  then show ?case by simp
next
  case (3 ev cur src dst acc n fm body ds s)
  then show ?case by simp
next
  case (4 ev cur src dst acc n cfg files ds s)
  from "4.prems" obtain sub s1 where
    g: "generate ev cur (path_join [src, n]) (path_join [dst, n]) cfg files s = Inr (sub, s1)"
    and t: "traverse ev cur src dst (acc @ sub) ds s1 = Inr (pages', s'')"
    by (auto split: sum.splits)
  from "4.IH"(1) [OF g] "4.IH"(2) [OF g refl t] show ?case by simp
qed

lemma run_amp_fails:
  "case generate ev_amp_fails 0 ''s'' ''d'' [] tree_siblings st_site of Inl e \<Rightarrow> False
   | Inr (ps, s) \<Rightarrow> ps = [2, 3, 5, 7] \<and>
       map (\<lambda>r. getp (heap s ! r) ''path'') ps = [Str ''a'', Str ''b'', Str ''p/c'', Str ''q/e''] \<and>
       map (\<lambda>r. getp (heap s ! r) ''path_amp'') ps
         = [Str ''aamp.html'', Str ''bamp.html'', Str ''p/camp.html'', Str ''q/eamp.html''] \<and>
       written_files (events s)
         = [''d/a/index.html'', ''d/b/index.html'', ''d/p/c/index.html'', ''d/q/e/index.html''] \<and>
       template_refs (events s) = [4, 6, 1] \<and>
       length (filter is_console_error (events s)) = 4"
  by code_simp

lemma run_amp_fails_Inr:
  obtains s' where "generate ev_amp_fails 0 ''s'' ''d'' [] tree_siblings st_site = Inr ([2, 3, 5, 7], s')"
    "map (\<lambda>r. getp (heap s' ! r) ''path'') [2, 3, 5, 7] = [Str ''a'', Str ''b'', Str ''p/c'', Str ''q/e'']"
    "map (\<lambda>r. getp (heap s' ! r) ''path_amp'') [2, 3, 5, 7]
         = [Str ''aamp.html'', Str ''bamp.html'', Str ''p/camp.html'', Str ''q/eamp.html'']"
    "written_files (events s')
         = [''d/a/index.html'', ''d/b/index.html'', ''d/p/c/index.html'', ''d/q/e/index.html'']"
    "template_refs (events s') = [4, 6, 1]"
    "length (filter is_console_error (events s')) = 4"
  using run_amp_fails by (auto split: sum.splits)



end
